theory Spec2Isabelle
  imports Complex_Main
begin

section \<open>Machine integers and faults\<close>

text \<open>
  The detector of \<^verbatim>\<open>jsCircleHough.cpp\<close> computes with \<^verbatim>\<open>int32_t\<close>, \<^verbatim>\<open>uint32_t\<close> and
  \<^verbatim>\<open>double\<close>. The 32-bit integers are modelled as \<open>int\<close> with the conversions written
  out: every signed result is wrapped by \<open>to_i32\<close>, every unsigned one by \<open>to_u32\<close>.
  A \<^verbatim>\<open>double\<close> is modelled as an exact \<open>real\<close>; the grid coordinates the code stores in
  doubles are integers of magnitude below \<open>2 ^ 33\<close>, which a double holds exactly. The
  kernel values and their sums are the exact ones, not their roundings: what is proved
  about weights is proved for exact arithmetic.
\<close>

definition is_i32 :: "int \<Rightarrow> bool" where
  "is_i32 k \<longleftrightarrow> - 2147483648 \<le> k \<and> k \<le> 2147483647"

definition is_u32 :: "int \<Rightarrow> bool" where
  "is_u32 k \<longleftrightarrow> 0 \<le> k \<and> k \<le> 4294967295"

definition to_u32 :: "int \<Rightarrow> int" where
  "to_u32 k = k mod 4294967296"

definition to_i32 :: "int \<Rightarrow> int" where
  "to_i32 k = (k + 2147483648) mod 4294967296 - 2147483648"

text \<open>
  What stops a call instead of returning: a failed \<^verbatim>\<open>assert\<close> (the process aborts), an
  integer division the processor traps (by zero, or \<^verbatim>\<open>INT_MIN / -1\<close>), an access outside
  a vector, a double too large for the \<^verbatim>\<open>int32_t\<close> it is assigned to, a null handle
  dereferenced, and the one C++ exception the code can raise by itself:
  \<^verbatim>\<open>std::length_error\<close> from \<^verbatim>\<open>vector::resize\<close> with a negative \<^verbatim>\<open>int\<close> size.
  Memory is taken to be unbounded, so no allocation of a representable size fails.
\<close>

datatype fault =
    AssertFailed
  | DivideError
  | OutOfBounds
  | ConversionOverflow
  | NullHandle
  | LengthError

definition and_then :: "fault + 'a \<Rightarrow> ('a \<Rightarrow> fault + 'b) \<Rightarrow> fault + 'b" where
  "and_then m f = (case m of Inl e \<Rightarrow> Inl e | Inr v \<Rightarrow> f v)"

fun for_each :: "('s \<Rightarrow> 'a \<Rightarrow> fault + 's) \<Rightarrow> 'a list \<Rightarrow> 's \<Rightarrow> fault + 's" where
  "for_each body [] s = Inr s"
| "for_each body (a # as) s = and_then (body s a) (for_each body as)"

text \<open>\<^verbatim>\<open>a / b\<close> on \<^verbatim>\<open>int32_t\<close> truncates towards zero; on \<^verbatim>\<open>uint32_t\<close> it is the floor.\<close>

definition trunc_div :: "int \<Rightarrow> int \<Rightarrow> int" where
  "trunc_div a b =
     (if (a < 0) = (b < 0) then \<bar>a\<bar> div \<bar>b\<bar> else - (\<bar>a\<bar> div \<bar>b\<bar>))"

definition div_i32 :: "int \<Rightarrow> int \<Rightarrow> fault + int" where
  "div_i32 a b =
     (if b = 0 \<or> (a = - 2147483648 \<and> b = - 1) then Inl DivideError
      else Inr (trunc_div a b))"

definition div_u32 :: "int \<Rightarrow> int \<Rightarrow> fault + int" where
  "div_u32 a b = (if b = 0 then Inl DivideError else Inr (a div b))"

text \<open>Assigning a double to an \<^verbatim>\<open>int32_t\<close> drops the fraction.\<close>

definition double_to_i32 :: "real \<Rightarrow> fault + int" where
  "double_to_i32 d =
     (let t = (if d < 0 then \<lceil>d\<rceil> else \<lfloor>d\<rfloor>)
      in if is_i32 t then Inr t else Inl ConversionOverflow)"

section \<open>The data of the detector\<close>

text \<open>
  The fields \<^verbatim>\<open>x\<close>, \<^verbatim>\<open>y\<close> of a sample point and \<^verbatim>\<open>weight\<close>, \<^verbatim>\<open>x\<close>, \<^verbatim>\<open>y\<close> of a result carry
  a prefix here, and the \<^verbatim>\<open>step_size\<close> of the caller's constraints is \<open>c_step_size\<close>, to
  keep them apart from each other and from variables.
\<close>

record jsProfileData =
  pt_x :: int
  pt_y :: int
  pt_brightness :: int

text \<open>A profile is its first \<^verbatim>\<open>data_len\<close> points.\<close>

type_synonym jsProfile = "jsProfileData list"

record jsCircleHoughConstraints =
  c_step_size :: int
  x_lower :: int
  x_upper :: int
  y_lower :: int
  y_upper :: int

record jsCircleHoughResults =
  res_weight :: real
  res_x :: int
  res_y :: int

record SymTriangleDist =
  m_mu :: real
  m_sigma :: real
  m_one_over_sigma :: real

record Constraints =
  lower :: int
  upper :: int
  step_size :: int
  steps :: int

record CircleHough =
  m_cx :: Constraints
  m_cy :: Constraints
  m_dist :: SymTriangleDist
  m_radius :: int
  m_bins :: "real list list"
  m_is_set :: "bool list"
  m_bx :: "real list"
  m_by :: "real list"

definition wf_constraints :: "jsCircleHoughConstraints \<Rightarrow> bool" where
  "wf_constraints c \<longleftrightarrow>
     is_u32 (c_step_size c) \<and> is_i32 (x_lower c) \<and> is_i32 (x_upper c) \<and>
     is_i32 (y_lower c) \<and> is_i32 (y_upper c)"

section \<open>The kernel\<close>

definition SymTriangleDist_ctor :: "real \<Rightarrow> real \<Rightarrow> SymTriangleDist" where
  "SymTriangleDist_ctor mu sigma =
     \<lparr>m_mu = mu, m_sigma = sigma, m_one_over_sigma = 1 / sigma\<rparr>"

definition pdf :: "SymTriangleDist \<Rightarrow> real \<Rightarrow> real" where
  "pdf d v =
     (if \<bar>v - m_mu d\<bar> > m_sigma d then 0
      else (1 - \<bar>(v - m_mu d) * m_one_over_sigma d\<bar>) * m_one_over_sigma d)"

section \<open>Construction\<close>

text \<open>
  \<^verbatim>\<open>steps((upper - lower) / step_size)\<close>: the difference is an \<^verbatim>\<open>int32_t\<close>, converted to
  \<^verbatim>\<open>uint32_t\<close> for the unsigned division.
\<close>

definition Constraints_ctor :: "int \<Rightarrow> int \<Rightarrow> int \<Rightarrow> fault + Constraints" where
  "Constraints_ctor lo up st =
     and_then (div_u32 (to_u32 (to_i32 (up - lo))) st)
       (\<lambda>n. Inr \<lparr>lower = lo, upper = up, step_size = st, steps = n\<rparr>)"

text \<open>The loop of \<^verbatim>\<open>linrange\<close>, from index \<open>n\<close> on.\<close>

function linrange_loop :: "real \<Rightarrow> nat \<Rightarrow> real list \<Rightarrow> real list" where
  "linrange_loop delta n v =
     (if n < length v then linrange_loop delta (Suc n) (v[n := v ! (n - 1) + delta]) else v)"
  by pat_completeness auto
termination
  by (relation "measure (\<lambda>(delta, n, v). length v - n)") auto

declare linrange_loop.simps [simp del]

text \<open>\<^verbatim>\<open>v[0] = start\<close> is outside the vector when \<^verbatim>\<open>bins\<close> is 0.\<close>

definition linrange :: "real \<Rightarrow> real \<Rightarrow> real \<Rightarrow> int \<Rightarrow> fault + real list" where
  "linrange start stop delta bins =
     (let v = replicate (nat bins) 0
      in if length v = 0 then Inl OutOfBounds
         else Inr (linrange_loop delta 1 (v[0 := start])))"

text \<open>
  \<^verbatim>\<open>zeros(int col, int row)\<close>: a negative \<^verbatim>\<open>int\<close> becomes a \<^verbatim>\<open>size_t\<close> above
  \<^verbatim>\<open>max_size()\<close>, and \<^verbatim>\<open>resize\<close> throws.
\<close>

definition zeros :: "int \<Rightarrow> int \<Rightarrow> fault + real list list" where
  "zeros col row =
     (if col < 0 then Inl LengthError
      else for_each (\<lambda>v m. if row < 0 then Inl LengthError
                            else Inr (v[m := replicate (nat row) 0]))
             [0..<nat col] (replicate (nat col) []))"

text \<open>
  The members are initialised in the order of their declaration (\<^verbatim>\<open>m_cx\<close>, \<^verbatim>\<open>m_cy\<close>,
  \<^verbatim>\<open>m_dist\<close>, \<^verbatim>\<open>m_radius\<close>), then the body runs its five assertions and fills the vectors.
\<close>

definition CircleHough_ctor :: "int \<Rightarrow> jsCircleHoughConstraints \<Rightarrow> fault + CircleHough" where
  "CircleHough_ctor radius c =
     and_then (Constraints_ctor (x_lower c) (x_upper c) (c_step_size c)) (\<lambda>cx.
     and_then (Constraints_ctor (y_lower c) (y_upper c) (c_step_size c)) (\<lambda>cy.
       let dist = SymTriangleDist_ctor (real_of_int radius) (real_of_int (c_step_size c))
       in if \<not> lower cx < upper cx then Inl AssertFailed
          else if \<not> lower cy < upper cy then Inl AssertFailed
          else if \<not> step_size cx > 0 then Inl AssertFailed
          else if \<not> step_size cy > 0 then Inl AssertFailed
          else if \<not> radius > 0 then Inl AssertFailed
          else
            and_then (linrange (real_of_int (lower cx)) (real_of_int (upper cx))
                        (real_of_int (step_size cx)) (steps cx)) (\<lambda>bx.
            and_then (linrange (real_of_int (lower cy)) (real_of_int (upper cy))
                        (real_of_int (step_size cy)) (steps cy)) (\<lambda>by.
            and_then (zeros (to_i32 (steps cy)) (to_i32 (steps cx))) (\<lambda>bins.
              Inr \<lparr>m_cx = cx, m_cy = cy, m_dist = dist, m_radius = radius,
                   m_bins = bins, m_is_set = replicate (nat (steps cy)) False,
                   m_bx = bx, m_by = by\<rparr>)))))"

text \<open>
  A handle is the detector itself, or \<open>None\<close> for the null pointer. Only a C++ exception
  reaches the \<^verbatim>\<open>catch\<close> clause; every other fault ends the process.
\<close>

datatype 'a outcome = Returned 'a | Terminated fault

definition jsCircleHoughCreate ::
  "int \<Rightarrow> jsCircleHoughConstraints \<Rightarrow> CircleHough option outcome" where
  "jsCircleHoughCreate radius c =
     (case CircleHough_ctor radius c of
        Inr ch \<Rightarrow> Returned (Some ch)
      | Inl LengthError \<Rightarrow> Returned None
      | Inl e \<Rightarrow> Terminated e)"

section \<open>Voting\<close>

definition find_index :: "int \<Rightarrow> Constraints \<Rightarrow> fault + int" where
  "find_index point c =
     and_then (div_i32 (to_i32 (point - lower c)) (to_i32 (step_size c))) (\<lambda>i.
       let low = 0;
           high = to_i32 (to_u32 (steps c - 1));
           r = (if i < low then low else if high < i then high else i)
       in Inr (to_u32 r))"

text \<open>The body of the innermost loop, at row \<open>j\<close> and column \<open>i\<close>.\<close>

definition vote ::
  "CircleHough \<Rightarrow> real \<Rightarrow> real \<Rightarrow> jsProfileData \<Rightarrow> int \<Rightarrow>
   real list list \<times> jsCircleHoughResults \<Rightarrow> int \<Rightarrow>
   fault + real list list \<times> jsCircleHoughResults" where
  "vote ch lower_lim upper_lim p j s i =
     (case s of (bins, results) \<Rightarrow>
        if i < 0 \<or> int (length (m_bx ch)) \<le> i \<or> j < 0 \<or> int (length (m_by ch)) \<le> j
        then Inl OutOfBounds
        else
          let a = real_of_int (pt_x p) - m_bx ch ! nat i;
              b = real_of_int (pt_y p) - m_by ch ! nat j;
              r_sqr = a * a + b * b
          in if r_sqr < lower_lim \<or> r_sqr > upper_lim then Inr (bins, results)
             else if int (length bins) \<le> j \<or> int (length (bins ! nat j)) \<le> i
             then Inl OutOfBounds
             else
               let r = sqrt r_sqr;
                   px = pdf (m_dist ch) r;
                   w = bins ! nat j ! nat i + px;
                   bins' = bins[nat j := (bins ! nat j)[nat i := w]]
               in if w > res_weight results
                  then and_then (double_to_i32 (m_bx ch ! nat i)) (\<lambda>cx.
                       and_then (double_to_i32 (m_by ch ! nat j)) (\<lambda>cy.
                         Inr (bins', \<lparr>res_weight = w, res_x = cx, res_y = cy\<rparr>)))
                  else Inr (bins', results))"

text \<open>The body of the loop over the profile: the window of one point, row by row.\<close>

definition vote_point ::
  "CircleHough \<Rightarrow> int \<Rightarrow> int \<Rightarrow> real \<Rightarrow> real \<Rightarrow>
   real list list \<times> jsCircleHoughResults \<Rightarrow> jsProfileData \<Rightarrow>
   fault + real list list \<times> jsCircleHoughResults" where
  "vote_point ch radius step lower_lim upper_lim s p =
     and_then (find_index (to_i32 (to_i32 (pt_x p - radius) - step)) (m_cx ch)) (\<lambda>x_start.
     and_then (find_index (to_i32 (to_i32 (pt_x p + radius) + step)) (m_cx ch)) (\<lambda>x_end.
     and_then (find_index (to_i32 (to_i32 (pt_y p - radius) - step)) (m_cy ch)) (\<lambda>y_start.
     and_then (find_index (to_i32 (pt_y p + step)) (m_cy ch)) (\<lambda>y_end.
       for_each
         (\<lambda>s' j. for_each (vote ch lower_lim upper_lim p j)
                    [to_i32 x_start .. to_i32 x_end - 1] s')
         [to_i32 y_start .. to_i32 y_end - 1] s))))"

text \<open>\<^verbatim>\<open>CircleHough::map\<close>; the detector comes back with the bins it has filled.\<close>

definition map_hough ::
  "CircleHough \<Rightarrow> jsProfile \<Rightarrow> fault + jsCircleHoughResults \<times> CircleHough" where
  "map_hough ch profile =
     (let results = \<lparr>res_weight = 0, res_x = 0, res_y = 0\<rparr>;
          step = to_i32 (step_size (m_cx ch));
          radius = m_radius ch;
          upper_lim = (real_of_int (to_i32 (radius + step)))\<^sup>2;
          lower_lim = (real_of_int (to_i32 (radius - step)))\<^sup>2;
          bins = map (\<lambda>row. map (\<lambda>_. 0) row) (m_bins ch)
      in and_then (for_each (vote_point ch radius step lower_lim upper_lim) profile
                     (bins, results))
           (\<lambda>(bins', results'). Inr (results', ch\<lparr>m_bins := bins'\<rparr>)))"

definition jsCircleHoughCalculate ::
  "CircleHough option \<Rightarrow> jsProfile \<Rightarrow> fault + jsCircleHoughResults \<times> CircleHough" where
  "jsCircleHoughCalculate circle_hough profile =
     (case circle_hough of None \<Rightarrow> Inl NullHandle | Some ch \<Rightarrow> map_hough ch profile)"

text \<open>
  A detector is used through its handle for any number of calls, one after the other;
  \<open>run_calls\<close> is the detector after the calls on the profiles \<open>ps\<close>.
\<close>

definition run_calls :: "CircleHough \<Rightarrow> jsProfile list \<Rightarrow> fault + CircleHough" where
  "run_calls ch ps =
     for_each (\<lambda>ch' p. and_then (jsCircleHoughCalculate (Some ch') p) (\<lambda>(r, ch''). Inr ch''))
       ps ch"

text \<open>
  The end-to-end scenarios of the specification create a detector and run one profile
  through it; \<open>scenario\<close> is the result record of that call.
\<close>

definition scenario ::
  "int \<Rightarrow> jsCircleHoughConstraints \<Rightarrow> jsProfile \<Rightarrow> fault + jsCircleHoughResults" where
  "scenario radius c profile =
     (case jsCircleHoughCreate radius c of
        Terminated e \<Rightarrow> Inl e
      | Returned h \<Rightarrow> map_sum id fst (jsCircleHoughCalculate h profile))"

definition sample :: "int \<Rightarrow> int \<Rightarrow> jsProfileData" where
  "sample a b = \<lparr>pt_x = a, pt_y = b, pt_brightness = 0\<rparr>"

definition region_500 :: jsCircleHoughConstraints where
  "region_500 =
     \<lparr>c_step_size = 100, x_lower = - 500, x_upper = 500, y_lower = - 500, y_upper = 500\<rparr>"

definition four_point_profile :: jsProfile where
  "four_point_profile = [sample 1000 0, sample (- 1000) 0, sample 0 1000, sample 0 (- 1000)]"

text \<open>The widest region there is, as a single bin.\<close>

definition full_range :: jsCircleHoughConstraints where
  "full_range =
     \<lparr>c_step_size = 4294967295, x_lower = - 2147483648, x_upper = 2147483647,
      y_lower = - 2147483648, y_upper = 2147483647\<rparr>"

section \<open>The voting loop without the squared-distance test\<close>




section \<open>What the proofs speak about\<close>

text \<open>The clamp of the specification's \<open>indexOf\<close>.\<close>

definition clamp :: "int \<Rightarrow> int \<Rightarrow> int \<Rightarrow> int" where
  "clamp v lo hi = (if v < lo then lo else if hi < v then hi else v)"

text \<open>The bin centres \<open>lo + k * st\<close> of an axis with \<open>n\<close> bins.\<close>

definition centres :: "int \<Rightarrow> int \<Rightarrow> nat \<Rightarrow> real list" where
  "centres lo st n = map (\<lambda>k. real_of_int (lo + int k * st)) [0..<n]"

text \<open>An axis as a successful construction leaves it.\<close>

definition wf_axis :: "Constraints \<Rightarrow> bool" where
  "wf_axis a \<longleftrightarrow>
     is_i32 (lower a) \<and> is_i32 (upper a) \<and> lower a < upper a \<and>
     0 < step_size a \<and> is_u32 (step_size a) \<and>
     steps a = (upper a - lower a) div step_size a \<and>
     1 \<le> steps a \<and> steps a \<le> 2147483647"

text \<open>
  A detector as a successful construction leaves it and every call keeps it: all but the
  contents of the bins.
\<close>

definition wf_detector :: "CircleHough \<Rightarrow> bool" where
  "wf_detector ch \<longleftrightarrow>
     wf_axis (m_cx ch) \<and> wf_axis (m_cy ch) \<and>
     step_size (m_cy ch) = step_size (m_cx ch) \<and>
     m_bx ch = centres (lower (m_cx ch)) (step_size (m_cx ch)) (nat (steps (m_cx ch))) \<and>
     m_by ch = centres (lower (m_cy ch)) (step_size (m_cy ch)) (nat (steps (m_cy ch))) \<and>
     length (m_bins ch) = nat (steps (m_cy ch)) \<and>
     (\<forall>row\<in>set (m_bins ch). length row = nat (steps (m_cx ch))) \<and>
     m_dist ch =
       SymTriangleDist_ctor (real_of_int (m_radius ch)) (real_of_int (step_size (m_cx ch))) \<and>
     0 < m_radius ch \<and> is_i32 (m_radius ch)"

text \<open>The detector a successful construction returns.\<close>

definition detector_of :: "int \<Rightarrow> jsCircleHoughConstraints \<Rightarrow> CircleHough" where
  "detector_of radius c =
     (let nx = (x_upper c - x_lower c) div c_step_size c;
          ny = (y_upper c - y_lower c) div c_step_size c
      in \<lparr>m_cx = \<lparr>lower = x_lower c, upper = x_upper c, step_size = c_step_size c, steps = nx\<rparr>,
           m_cy = \<lparr>lower = y_lower c, upper = y_upper c, step_size = c_step_size c, steps = ny\<rparr>,
           m_dist = SymTriangleDist_ctor (real_of_int radius) (real_of_int (c_step_size c)),
           m_radius = radius,
           m_bins = replicate (nat ny) (replicate (nat nx) 0),
           m_is_set = replicate (nat ny) False,
           m_bx = centres (x_lower c) (c_step_size c) (nat nx),
           m_by = centres (y_lower c) (c_step_size c) (nat ny)\<rparr>)"

text \<open>
  The state of the voting loops is the bin array with the peak found so far. The loops
  keep it in this shape: every bin lies between 0 and the peak weight, the last row and
  the last column are untouched, and the peak is either the initial one or a bin off the
  last row and column holding the peak weight.
\<close>

definition peak_inv :: "CircleHough \<Rightarrow> real list list \<times> jsCircleHoughResults \<Rightarrow> bool" where
  "peak_inv ch s \<longleftrightarrow>
     (case s of (bins, res) \<Rightarrow>
        length bins = nat (steps (m_cy ch)) \<and>
        (\<forall>row\<in>set bins. length row = nat (steps (m_cx ch))) \<and>
        (\<forall>j<nat (steps (m_cy ch)). \<forall>i<nat (steps (m_cx ch)).
           0 \<le> bins ! j ! i \<and> bins ! j ! i \<le> res_weight res \<and>
           (i = nat (steps (m_cx ch)) - 1 \<or> j = nat (steps (m_cy ch)) - 1 \<longrightarrow>
              bins ! j ! i = 0)) \<and>
        (res = \<lparr>res_weight = 0, res_x = 0, res_y = 0\<rparr> \<or>
         0 < res_weight res \<and>
         (\<exists>i<nat (steps (m_cx ch)) - 1. \<exists>j<nat (steps (m_cy ch)) - 1.
            bins ! j ! i = res_weight res \<and>
            res_x res = lower (m_cx ch) + int i * step_size (m_cx ch) \<and>
            res_y res = lower (m_cy ch) + int j * step_size (m_cy ch))))"

text \<open>What one run of the innermost body does to the state when it adds the vote \<open>k j i\<close>.\<close>

definition accum ::
  "CircleHough \<Rightarrow> (nat \<Rightarrow> nat \<Rightarrow> real) \<Rightarrow> int \<Rightarrow>
   real list list \<times> jsCircleHoughResults \<Rightarrow> int \<Rightarrow>
   real list list \<times> jsCircleHoughResults" where
  "accum ch k j s i =
     (case s of (bins, res) \<Rightarrow>
        let w = bins ! nat j ! nat i + k (nat j) (nat i)
        in (bins[nat j := (bins ! nat j)[nat i := w]],
            if w > res_weight res
            then \<lparr>res_weight = w,
                  res_x = lower (m_cx ch) + i * step_size (m_cx ch),
                  res_y = lower (m_cy ch) + j * step_size (m_cy ch)\<rparr>
            else res))"

text \<open>The vote of point \<open>p\<close> for bin \<open>(j, i)\<close>, with and without the test on \<^verbatim>\<open>r_sqr\<close>.\<close>

definition r_sqr_of :: "CircleHough \<Rightarrow> jsProfileData \<Rightarrow> nat \<Rightarrow> nat \<Rightarrow> real" where
  "r_sqr_of ch p j i =
     (real_of_int (pt_x p) - m_bx ch ! i) * (real_of_int (pt_x p) - m_bx ch ! i) +
     (real_of_int (pt_y p) - m_by ch ! j) * (real_of_int (pt_y p) - m_by ch ! j)"

definition kernel_vote ::
  "CircleHough \<Rightarrow> real \<Rightarrow> real \<Rightarrow> jsProfileData \<Rightarrow> nat \<Rightarrow> nat \<Rightarrow> real" where
  "kernel_vote ch lower_lim upper_lim p j i =
     (if r_sqr_of ch p j i < lower_lim \<or> r_sqr_of ch p j i > upper_lim then 0
      else pdf (m_dist ch) (sqrt (r_sqr_of ch p j i)))"


text \<open>The two limits \<^verbatim>\<open>map\<close> computes before its loops.\<close>

definition lim_lower :: "CircleHough \<Rightarrow> real" where
  "lim_lower ch = (real_of_int (to_i32 (m_radius ch - to_i32 (step_size (m_cx ch)))))\<^sup>2"

definition lim_upper :: "CircleHough \<Rightarrow> real" where
  "lim_upper ch = (real_of_int (to_i32 (m_radius ch + to_i32 (step_size (m_cx ch)))))\<^sup>2"

text \<open>The four window bounds of a point, and the two nested loops over a window.\<close>

definition window ::
  "CircleHough \<Rightarrow> int \<Rightarrow> int \<Rightarrow> jsProfileData \<Rightarrow> fault + int \<times> int \<times> int \<times> int" where
  "window ch radius step p =
     and_then (find_index (to_i32 (to_i32 (pt_x p - radius) - step)) (m_cx ch)) (\<lambda>x_start.
     and_then (find_index (to_i32 (to_i32 (pt_x p + radius) + step)) (m_cx ch)) (\<lambda>x_end.
     and_then (find_index (to_i32 (to_i32 (pt_y p - radius) - step)) (m_cy ch)) (\<lambda>y_start.
     and_then (find_index (to_i32 (pt_y p + step)) (m_cy ch)) (\<lambda>y_end.
       Inr (x_start, x_end, y_start, y_end)))))"

definition sweep ::
  "(int \<Rightarrow> 's \<Rightarrow> int \<Rightarrow> fault + 's) \<Rightarrow> int \<times> int \<times> int \<times> int \<Rightarrow> 's \<Rightarrow> fault + 's" where
  "sweep body w s =
     (case w of (x_start, x_end, y_start, y_end) \<Rightarrow>
        for_each (\<lambda>s' j. for_each (body j) [to_i32 x_start .. to_i32 x_end - 1] s')
          [to_i32 y_start .. to_i32 y_end - 1] s)"

text \<open>The vote a whole call on the point \<open>p\<close> adds to bin \<open>(j, i)\<close>.\<close>

definition contrib ::
  "CircleHough \<Rightarrow> (jsProfileData \<Rightarrow> nat \<Rightarrow> nat \<Rightarrow> real) \<Rightarrow> jsProfileData \<Rightarrow> nat \<Rightarrow> nat \<Rightarrow> real" where
  "contrib ch k p j i =
     (case window ch (m_radius ch) (to_i32 (step_size (m_cx ch))) p of
        Inl e \<Rightarrow> 0
      | Inr (x_start, x_end, y_start, y_end) \<Rightarrow>
          if x_start \<le> int i \<and> int i < x_end \<and> y_start \<le> int j \<and> int j < y_end
          then k p j i else 0)"

section \<open>Basic facts\<close>

lemma and_then_Inr [simp]: "and_then (Inr v) f = f v"
  by (simp add: and_then_def)

lemma and_then_Inl [simp]: "and_then (Inl e) f = Inl e"
  by (simp add: and_then_def)

lemma and_then_eq_Inr: "and_then m f = Inr r \<longleftrightarrow> (\<exists>v. m = Inr v \<and> f v = Inr r)"
  by (cases m) simp_all

lemma to_i32_id: "is_i32 k \<Longrightarrow> to_i32 k = k"
  by (simp add: is_i32_def to_i32_def)

lemma to_u32_id: "is_u32 k \<Longrightarrow> to_u32 k = k"
  by (simp add: is_u32_def to_u32_def)

lemma is_i32_to_i32: "is_i32 (to_i32 k)"
proof -
  have "0 \<le> (k + 2147483648) mod 4294967296" "(k + 2147483648) mod 4294967296 < 4294967296"
    by simp_all
  then show ?thesis unfolding is_i32_def to_i32_def by linarith
qed

lemma to_u32_to_i32: "to_u32 (to_i32 k) = to_u32 k"
proof -
  have "to_i32 k = k + 2147483648 - 4294967296 * ((k + 2147483648) div 4294967296) - 2147483648"
    unfolding to_i32_def by (simp add: minus_mult_div_eq_mod [symmetric])
  then have "to_i32 k = k + 4294967296 * (- ((k + 2147483648) div 4294967296))" by simp
  then show ?thesis unfolding to_u32_def by (metis mod_mult_self2)
qed

subsection \<open>Loops\<close>

lemma for_each_invariant:
  assumes "P s" and "for_each body xs s = Inr s'"
    and "\<And>t a t'. a \<in> set xs \<Longrightarrow> P t \<Longrightarrow> body t a = Inr t' \<Longrightarrow> P t'"
  shows "P s'"
  using assms
proof (induction xs arbitrary: s)
  case Nil
  then show ?case by simp
next
  case (Cons a xs)
  from Cons.prems(2) obtain t where t: "body s a = Inr t" "for_each body xs t = Inr s'"
    by (auto simp: and_then_eq_Inr)
  have "P t" using Cons.prems(3) [of a s t] Cons.prems(1) t(1) by simp
  moreover have "\<And>b u u'. b \<in> set xs \<Longrightarrow> P u \<Longrightarrow> body u b = Inr u' \<Longrightarrow> P u'"
    using Cons.prems(3) by (meson list.set_intros(2))
  ultimately show ?case using Cons.IH [OF _ t(2)] by blast
qed

lemma for_each_total:
  assumes "P s"
    and "\<And>t a. a \<in> set xs \<Longrightarrow> P t \<Longrightarrow> \<exists>t'. body t a = Inr t' \<and> P t'"
  shows "\<exists>s'. for_each body xs s = Inr s' \<and> P s'"
  using assms
proof (induction xs arbitrary: s)
  case Nil
  then show ?case by simp
next
  case (Cons a xs)
  from Cons.prems obtain t where t: "body s a = Inr t" "P t" by (meson list.set_intros(1))
  have "\<And>b u. b \<in> set xs \<Longrightarrow> P u \<Longrightarrow> \<exists>u'. body u b = Inr u' \<and> P u'"
    using Cons.prems(2) by (meson list.set_intros(2))
  then have "\<exists>s'. for_each body xs t = Inr s' \<and> P s'"
    using Cons.IH [OF t(2)] by blast
  then show ?case using t(1) by simp
qed


lemma for_each_append:
  "for_each body (xs @ ys) s = and_then (for_each body xs s) (for_each body ys)"
proof (induction xs arbitrary: s)
  case Nil
  then show ?case by simp
next
  case (Cons a xs)
  then show ?case by (cases "body s a") simp_all
qed

subsection \<open>Construction\<close>

lemma linrange_loop_spec:
  assumes "1 \<le> n" "n \<le> length v" "\<forall>k<n. v ! k = start + real k * delta"
  shows "length (linrange_loop delta n v) = length v \<and>
         (\<forall>k<length v. linrange_loop delta n v ! k = start + real k * delta)"
  using assms
proof (induction delta n v rule: linrange_loop.induct)
  case (1 delta n v)
  show ?case
  proof (cases "n < length v")
    case False
    then show ?thesis using "1.prems" by (simp add: linrange_loop.simps)
  next
    case True
    let ?v = "v[n := v ! (n - 1) + delta]"
    have step: "\<forall>k<Suc n. ?v ! k = start + real k * delta"
    proof (intro allI impI)
      fix k assume k: "k < Suc n"
      show "?v ! k = start + real k * delta"
      proof (cases "k = n")
        case True
        have "v ! (n - 1) = start + real (n - 1) * delta" using "1.prems" by simp
        moreover have "real (n - 1) + 1 = real n" using "1.prems"(1) by simp
        ultimately have "v ! (n - 1) + delta = start + real n * delta"
          by (simp add: algebra_simps)
        then show ?thesis using True \<open>n < length v\<close> by simp
      next
        case False
        then show ?thesis using k "1.prems"(3) by simp
      qed
    qed
    have "length (linrange_loop delta (Suc n) ?v) = length ?v \<and>
          (\<forall>k<length ?v. linrange_loop delta (Suc n) ?v ! k = start + real k * delta)"
      using "1.IH" [OF True] True step by simp
    then show ?thesis using True by (simp add: linrange_loop.simps [of delta n v])
  qed
qed

lemma linrange_centres:
  assumes "1 \<le> bins"
  shows "linrange (real_of_int lo) stop (real_of_int st) bins = Inr (centres lo st (nat bins))"
proof -
  let ?v = "(replicate (nat bins) (0::real))[0 := real_of_int lo]"
  have len: "length ?v = nat bins" by simp
  have pos: "0 < nat bins" using assms by simp
  have "\<forall>k<1. ?v ! k = real_of_int lo + real k * real_of_int st" using pos by simp
  then have spec: "length (linrange_loop (real_of_int st) 1 ?v) = length ?v \<and>
      (\<forall>k<length ?v. linrange_loop (real_of_int st) 1 ?v ! k = real_of_int lo + real k * real_of_int st)"
    using linrange_loop_spec [of 1 ?v "real_of_int lo" "real_of_int st"] pos by simp
  have "linrange_loop (real_of_int st) 1 ?v = centres lo st (nat bins)"
    by (rule nth_equalityI) (use spec in \<open>simp_all add: centres_def\<close>)
  then show ?thesis using pos by (simp add: linrange_def)
qed

lemma linrange_eq_Inr: "linrange start stop delta bins = Inr v \<Longrightarrow> 1 \<le> bins"
  by (auto simp: linrange_def Let_def split: if_splits)

lemma zeros_spec:
  assumes "0 \<le> col" "0 \<le> row"
  shows "zeros col row = Inr (replicate (nat col) (replicate (nat row) 0))"
proof -
  have gen: "for_each (\<lambda>v m. if row < 0 then Inl LengthError
                            else Inr (v[m := replicate (nat row) (0::real)]))
             [0..<n] (replicate (nat col) []) =
        Inr (replicate n (replicate (nat row) 0) @ replicate (nat col - n) [])" if "n \<le> nat col" for n
    using that
  proof (induction n)
    case 0
    then show ?case by simp
  next
    case (Suc n)
    from Suc.IH Suc.prems have IH: "for_each (\<lambda>v m. if row < 0 then Inl LengthError
                            else Inr (v[m := replicate (nat row) (0::real)]))
             [0..<n] (replicate (nat col) []) =
        Inr (replicate n (replicate (nat row) 0) @ replicate (nat col - n) [])" by simp
    have upd: "(replicate n (replicate (nat row) (0::real)) @ replicate (nat col - n) [])
                 [n := replicate (nat row) 0] =
               replicate (Suc n) (replicate (nat row) 0) @ replicate (nat col - Suc n) []"
      using Suc.prems
      by (intro nth_equalityI) (auto simp: nth_append nth_list_update less_Suc_eq simp del: replicate_Suc)
    show ?case using IH upd assms(2) by (simp add: for_each_append)
  qed
  show ?thesis using gen [of "nat col"] assms by (simp add: zeros_def)
qed


lemma Constraints_ctor_eq:
  assumes "is_i32 lo" "is_i32 up" "lo < up" "0 < st"
  shows "Constraints_ctor lo up st =
         Inr \<lparr>lower = lo, upper = up, step_size = st, steps = (up - lo) div st\<rparr>"
proof -
  have "0 \<le> up - lo" "up - lo < 4294967296" using assms by (simp_all add: is_i32_def)
  then have "to_u32 (to_i32 (up - lo)) = up - lo"
    by (simp add: to_u32_to_i32) (simp add: to_u32_def)
  then show ?thesis using assms(4) by (simp add: Constraints_ctor_def div_u32_def)
qed

lemma Constraints_ctor_zero_step: "Constraints_ctor lo up 0 = Inl DivideError"
  by (simp add: Constraints_ctor_def div_u32_def)

lemma Constraints_ctor_fields:
  assumes "Constraints_ctor lo up st = Inr a"
  shows "lower a = lo \<and> upper a = up \<and> step_size a = st \<and> st \<noteq> 0"
  using assms by (auto simp: Constraints_ctor_def div_u32_def split: if_splits)



lemma to_i32_high:
  assumes "2147483648 \<le> k" "k \<le> 4294967295"
  shows "to_i32 k = k - 4294967296"
proof -
  have "k + 2147483648 = (k - 2147483648) + 4294967296"
    by simp
  then have "(k + 2147483648) mod 4294967296 = ((k - 2147483648) + 4294967296) mod 4294967296"
    by (simp only:)
  also have "\<dots> = (k - 2147483648) mod 4294967296"
    by (simp only: mod_add_self2)
  also have "\<dots> = k - 2147483648"
    using assms by (simp add: mod_pos_pos_trivial)
  finally show ?thesis by (simp add: to_i32_def)
qed

lemma to_i32_steps:
  assumes "0 \<le> n" "n \<le> 4294967295"
  shows "0 \<le> to_i32 n \<longleftrightarrow> n \<le> 2147483647"
proof (cases "n \<le> 2147483647")
  case True
  then show ?thesis using assms by (simp add: to_i32_id is_i32_def)
next
  case False
  then show ?thesis using assms by (simp add: to_i32_high)
qed

lemma to_i32_step_nonzero:
  assumes "0 < n" "n \<le> 4294967295"
  shows "to_i32 n \<noteq> 0" and "to_i32 n = - 1 \<longleftrightarrow> n = 4294967295"
proof -
  show "to_i32 n \<noteq> 0"
  proof (cases "n \<le> 2147483647")
    case True
    then show ?thesis using assms by (simp add: to_i32_id is_i32_def)
  next
    case False
    then show ?thesis using assms by (simp add: to_i32_high)
  qed
  show "to_i32 n = - 1 \<longleftrightarrow> n = 4294967295"
  proof (cases "n \<le> 2147483647")
    case True
    then show ?thesis using assms by (simp add: to_i32_id is_i32_def)
  next
    case False
    then show ?thesis using assms by (simp add: to_i32_high)
  qed
qed

lemma div_u32_bounds:
  fixes a b :: int
  assumes "0 \<le> a" "a \<le> 4294967295" "0 < b"
  shows "0 \<le> a div b" and "a div b \<le> 4294967295"
proof -
  show "0 \<le> a div b" using assms by (simp add: pos_imp_zdiv_nonneg_iff)
  have "a div b \<le> a div 1" using assms zdiv_mono2 [of a 1 b] by simp
  then show "a div b \<le> 4294967295" using assms by simp
qed

lemma CircleHough_ctor_D:
  assumes wf: "wf_constraints c" and r: "is_i32 radius"
    and ok: "CircleHough_ctor radius c = Inr ch"
  shows "x_lower c < x_upper c \<and> y_lower c < y_upper c \<and> 0 < c_step_size c \<and> 0 < radius \<and>
         c_step_size c \<le> x_upper c - x_lower c \<and> c_step_size c \<le> y_upper c - y_lower c \<and>
         (x_upper c - x_lower c) div c_step_size c \<le> 2147483647 \<and>
         (y_upper c - y_lower c) div c_step_size c \<le> 2147483647 \<and>
         ch = detector_of radius c"
proof -
  from ok obtain cx where cx: "Constraints_ctor (x_lower c) (x_upper c) (c_step_size c) = Inr cx"
    by (auto simp: CircleHough_ctor_def and_then_eq_Inr)
  from ok cx obtain cy where cy: "Constraints_ctor (y_lower c) (y_upper c) (c_step_size c) = Inr cy"
    by (auto simp: CircleHough_ctor_def and_then_eq_Inr)
  note fx = Constraints_ctor_fields [OF cx] and fy = Constraints_ctor_fields [OF cy]
  have asserts: "x_lower c < x_upper c" "y_lower c < y_upper c" "0 < c_step_size c" "0 < radius"
    using ok cx cy fx fy
    by (auto simp: CircleHough_ctor_def Let_def split: if_splits)
  have ix: "is_i32 (x_lower c)" "is_i32 (x_upper c)" and iy: "is_i32 (y_lower c)" "is_i32 (y_upper c)"
    and st: "is_u32 (c_step_size c)"
    using wf by (simp_all add: wf_constraints_def)
  define nx where "nx = (x_upper c - x_lower c) div c_step_size c"
  define ny where "ny = (y_upper c - y_lower c) div c_step_size c"
  have cx_eq: "cx = \<lparr>lower = x_lower c, upper = x_upper c, step_size = c_step_size c, steps = nx\<rparr>"
    using cx Constraints_ctor_eq [OF ix asserts(1,3)] by (simp add: nx_def)
  have cy_eq: "cy = \<lparr>lower = y_lower c, upper = y_upper c, step_size = c_step_size c, steps = ny\<rparr>"
    using cy Constraints_ctor_eq [OF iy asserts(2,3)] by (simp add: ny_def)
  have rest: "and_then (linrange (real_of_int (x_lower c)) (real_of_int (x_upper c))
                        (real_of_int (c_step_size c)) nx) (\<lambda>bx.
            and_then (linrange (real_of_int (y_lower c)) (real_of_int (y_upper c))
                        (real_of_int (c_step_size c)) ny) (\<lambda>by.
            and_then (zeros (to_i32 ny) (to_i32 nx)) (\<lambda>bins.
              Inr \<lparr>m_cx = cx, m_cy = cy,
                   m_dist = SymTriangleDist_ctor (real_of_int radius) (real_of_int (c_step_size c)),
                   m_radius = radius,
                   m_bins = bins, m_is_set = replicate (nat ny) False,
                   m_bx = bx, m_by = by\<rparr>))) = Inr ch"
    using ok cx cy asserts by (simp add: CircleHough_ctor_def Let_def cx_eq cy_eq)
  then obtain bx "by" bins where
    bx: "linrange (real_of_int (x_lower c)) (real_of_int (x_upper c)) (real_of_int (c_step_size c)) nx = Inr bx"
    and "by": "linrange (real_of_int (y_lower c)) (real_of_int (y_upper c)) (real_of_int (c_step_size c)) ny = Inr by"
    and bins: "zeros (to_i32 ny) (to_i32 nx) = Inr bins"
    and ch: "ch = \<lparr>m_cx = cx, m_cy = cy,
                   m_dist = SymTriangleDist_ctor (real_of_int radius) (real_of_int (c_step_size c)),
                   m_radius = radius,
                   m_bins = bins, m_is_set = replicate (nat ny) False,
                   m_bx = bx, m_by = by\<rparr>"
    by (auto simp: and_then_eq_Inr)
  have nx1: "1 \<le> nx" and ny1: "1 \<le> ny"
    using linrange_eq_Inr [OF bx] linrange_eq_Inr [OF "by"] by simp_all
  have dx: "0 \<le> x_upper c - x_lower c" "x_upper c - x_lower c \<le> 4294967295"
    and dy: "0 \<le> y_upper c - y_lower c" "y_upper c - y_lower c \<le> 4294967295"
    using ix iy asserts by (simp_all add: is_i32_def)
  have nxb: "0 \<le> nx" "nx \<le> 4294967295" and nyb: "0 \<le> ny" "ny \<le> 4294967295"
    using div_u32_bounds [OF dx asserts(3)] div_u32_bounds [OF dy asserts(3)]
    by (simp_all add: nx_def ny_def)
  have "0 \<le> to_i32 ny"
    using bins by (auto simp: zeros_def split: if_splits)
  then have ny2: "ny \<le> 2147483647" using to_i32_steps [OF nyb] by simp
  have "0 \<le> to_i32 nx"
  proof (rule ccontr)
    assume "\<not> 0 \<le> to_i32 nx"
    then have neg: "to_i32 nx < 0" by simp
    have "0 < nat (to_i32 ny)" using ny1 ny2 nyb by (simp add: to_i32_id is_i32_def)
    then have "[0..<nat (to_i32 ny)] = 0 # [1..<nat (to_i32 ny)]"
      by (simp add: upt_conv_Cons)
    then show False using bins neg \<open>0 \<le> to_i32 ny\<close> by (simp add: zeros_def)
  qed
  then have nx2: "nx \<le> 2147483647" using to_i32_steps [OF nxb] by simp
  have sx: "c_step_size c \<le> x_upper c - x_lower c"
  proof (rule ccontr)
    assume "\<not> c_step_size c \<le> x_upper c - x_lower c"
    then have "nx = 0" using dx by (simp add: nx_def)
    then show False using nx1 by simp
  qed
  have sy: "c_step_size c \<le> y_upper c - y_lower c"
  proof (rule ccontr)
    assume "\<not> c_step_size c \<le> y_upper c - y_lower c"
    then have "ny = 0" using dy by (simp add: ny_def)
    then show False using ny1 by simp
  qed
  have bx_eq: "bx = centres (x_lower c) (c_step_size c) (nat nx)"
    using bx linrange_centres [OF nx1] by simp
  have by_eq: "by = centres (y_lower c) (c_step_size c) (nat ny)"
    using "by" linrange_centres [OF ny1] by simp
  have bins_eq: "bins = replicate (nat ny) (replicate (nat nx) 0)"
    using bins zeros_spec [of "to_i32 ny" "to_i32 nx"] nx2 ny2 nxb nyb
    by (simp add: to_i32_id is_i32_def)
  have "ch = detector_of radius c"
    unfolding ch cx_eq cy_eq bx_eq by_eq bins_eq detector_of_def Let_def nx_def ny_def ..
  then show ?thesis using asserts sx sy nx2 ny2 by (simp add: nx_def ny_def)
qed


lemma div_ge_one:
  fixes a b :: int
  assumes "0 < b" "b \<le> a"
  shows "1 \<le> a div b"
  using assms pos_imp_zdiv_pos_iff [of b a] by simp

lemma CircleHough_ctor_I:
  assumes wf: "wf_constraints c" and r: "is_i32 radius"
    and lt: "x_lower c < x_upper c" "y_lower c < y_upper c"
    and pos: "0 < c_step_size c" "0 < radius"
    and wide: "c_step_size c \<le> x_upper c - x_lower c" "c_step_size c \<le> y_upper c - y_lower c"
    and small: "(x_upper c - x_lower c) div c_step_size c \<le> 2147483647"
               "(y_upper c - y_lower c) div c_step_size c \<le> 2147483647"
  shows "CircleHough_ctor radius c = Inr (detector_of radius c)"
proof -
  have ix: "is_i32 (x_lower c)" "is_i32 (x_upper c)" and iy: "is_i32 (y_lower c)" "is_i32 (y_upper c)"
    using wf by (simp_all add: wf_constraints_def)
  define nx where "nx = (x_upper c - x_lower c) div c_step_size c"
  define ny where "ny = (y_upper c - y_lower c) div c_step_size c"
  have nx1: "1 \<le> nx" and ny1: "1 \<le> ny"
    using div_ge_one [OF pos(1) wide(1)] div_ge_one [OF pos(1) wide(2)]
    by (simp_all add: nx_def ny_def)
  have n32: "to_i32 nx = nx" "to_i32 ny = ny"
    using nx1 ny1 small by (simp_all add: to_i32_id is_i32_def nx_def ny_def)
  have z: "zeros (to_i32 ny) (to_i32 nx) = Inr (replicate (nat ny) (replicate (nat nx) 0))"
    using zeros_spec [of ny nx] nx1 ny1 by (simp add: n32)
  show ?thesis
    using lt pos z
    by (simp add: CircleHough_ctor_def Constraints_ctor_eq [OF ix lt(1) pos(1)]
        Constraints_ctor_eq [OF iy lt(2) pos(1)] Let_def linrange_centres [OF nx1]
        linrange_centres [OF ny1] detector_of_def nx_def [symmetric] ny_def [symmetric])
qed

lemma length_centres [simp]: "length (centres lo st n) = n"
  by (simp add: centres_def)

lemma nth_centres [simp]: "k < n \<Longrightarrow> centres lo st n ! k = real_of_int (lo + int k * st)"
  by (simp add: centres_def)

lemma wf_detector_of:
  assumes wf: "wf_constraints c" and r: "is_i32 radius"
    and lt: "x_lower c < x_upper c" "y_lower c < y_upper c"
    and pos: "0 < c_step_size c" "0 < radius"
    and wide: "c_step_size c \<le> x_upper c - x_lower c" "c_step_size c \<le> y_upper c - y_lower c"
    and small: "(x_upper c - x_lower c) div c_step_size c \<le> 2147483647"
               "(y_upper c - y_lower c) div c_step_size c \<le> 2147483647"
  shows "wf_detector (detector_of radius c)"
proof -
  have ix: "is_i32 (x_lower c)" "is_i32 (x_upper c)" and iy: "is_i32 (y_lower c)" "is_i32 (y_upper c)"
    and st: "is_u32 (c_step_size c)"
    using wf by (simp_all add: wf_constraints_def)
  have "wf_axis (m_cx (detector_of radius c))"
    using ix st lt pos small div_ge_one [OF pos(1) wide(1)]
    by (simp add: wf_axis_def detector_of_def Let_def)
  moreover have "wf_axis (m_cy (detector_of radius c))"
    using iy st lt pos small div_ge_one [OF pos(1) wide(2)]
    by (simp add: wf_axis_def detector_of_def Let_def)
  ultimately show ?thesis
    using r pos by (simp add: wf_detector_def) (simp add: detector_of_def Let_def)
qed

lemma CircleHough_ctor_wf:
  assumes "wf_constraints c" "is_i32 radius" "CircleHough_ctor radius c = Inr ch"
  shows "wf_detector ch"
  using CircleHough_ctor_D [OF assms] wf_detector_of [OF assms(1,2)] by simp

subsection \<open>The index of a coordinate\<close>

lemma find_index_high:
  assumes "1 \<le> steps a" "steps a \<le> 2147483648"
  shows "to_i32 (to_u32 (steps a - 1)) = steps a - 1"
  using assms by (simp add: to_u32_id is_u32_def to_i32_id is_i32_def)

lemma find_index_eq:
  assumes "1 \<le> steps a" "steps a \<le> 2147483648"
    and "div_i32 (to_i32 (point - lower a)) (to_i32 (step_size a)) = Inr q"
  shows "find_index point a = Inr (clamp q 0 (steps a - 1))"
proof -
  have "0 \<le> clamp q 0 (steps a - 1)" "clamp q 0 (steps a - 1) \<le> 4294967295"
    using assms(1,2) by (simp_all add: clamp_def)
  then have "to_u32 (clamp q 0 (steps a - 1)) = clamp q 0 (steps a - 1)"
    by (simp add: to_u32_id is_u32_def)
  then show ?thesis
    using assms(3) by (simp add: find_index_def find_index_high [OF assms(1,2)] Let_def clamp_def)
qed

lemma clamp_range: "lo \<le> hi \<Longrightarrow> lo \<le> clamp q lo hi \<and> clamp q lo hi \<le> hi"
  by (simp add: clamp_def)

lemma div_i32_total:
  assumes "0 < st" "st \<le> 4294967295" "st \<noteq> 4294967295"
  shows "\<exists>q. div_i32 n (to_i32 st) = Inr q"
  using to_i32_step_nonzero [OF assms(1,2)] assms(3) by (simp add: div_i32_def)

lemma find_index_range:
  assumes "wf_axis a" "find_index point a = Inr r"
  shows "0 \<le> r \<and> r \<le> steps a - 1"
proof -
  have s: "1 \<le> steps a" "steps a \<le> 2147483648" using assms(1) by (simp_all add: wf_axis_def)
  from assms(2) obtain q where "div_i32 (to_i32 (point - lower a)) (to_i32 (step_size a)) = Inr q"
    by (auto simp: find_index_def and_then_eq_Inr)
  then have "r = clamp q 0 (steps a - 1)" using find_index_eq [OF s] assms(2) by simp
  then show ?thesis using clamp_range [of 0 "steps a - 1" q] s by simp
qed

lemma find_index_total:
  assumes "wf_axis a" "step_size a \<noteq> 4294967295"
  shows "\<exists>r. find_index point a = Inr r"
proof -
  have s: "1 \<le> steps a" "steps a \<le> 2147483648" and st: "0 < step_size a" "step_size a \<le> 4294967295"
    using assms(1) by (simp_all add: wf_axis_def is_u32_def)
  obtain q where "div_i32 (to_i32 (point - lower a)) (to_i32 (step_size a)) = Inr q"
    using div_i32_total [OF st assms(2)] by blast
  then show ?thesis using find_index_eq [OF s] by blast
qed

lemma find_index_clamp_aux:
  assumes "1 \<le> steps a" "steps a \<le> 2147483648" "0 < step_size a" "step_size a \<le> 2147483647"
  shows "(\<exists>r. find_index point a = Inr r \<and> 0 \<le> r \<and> r \<le> steps a - 1) \<and>
         (is_i32 (point - lower a) \<longrightarrow>
            find_index point a =
              Inr (clamp (trunc_div (point - lower a) (step_size a)) 0 (steps a - 1)))"
proof -
  have st: "to_i32 (step_size a) = step_size a"
    using assms(3,4) by (simp add: to_i32_id is_i32_def)
  have d: "div_i32 n (to_i32 (step_size a)) = Inr (trunc_div n (step_size a))" for n
    using assms(3) by (simp add: div_i32_def st)
  have e: "find_index point a =
           Inr (clamp (trunc_div (to_i32 (point - lower a)) (step_size a)) 0 (steps a - 1))"
    using find_index_eq [OF assms(1,2) d] .
  show ?thesis
    using e clamp_range [of 0 "steps a - 1"] assms(1) by (simp add: to_i32_id)
qed

lemma find_index_overflow_example:
  "find_index 2147483647 \<lparr>lower = - 500, upper = 500, step_size = 100, steps = 10\<rparr> = Inr 0 \<and>
   clamp (trunc_div (2147483647 - (- 500)) 100) 0 (10 - 1) = 9"
  by (simp add: find_index_def div_i32_def trunc_div_def to_i32_def to_u32_def clamp_def)


subsection \<open>Inputs the construction does not reject\<close>

lemma create_zero_radius:
  "jsCircleHoughCreate 0 region_500 = Terminated AssertFailed"
  by (simp add: jsCircleHoughCreate_def CircleHough_ctor_def region_500_def
      Constraints_ctor_eq is_i32_def Let_def)

lemma create_short_axis:
  "Constraints_ctor 0 50 100 = Inr \<lparr>lower = 0, upper = 50, step_size = 100, steps = 0\<rparr> \<and>
   jsCircleHoughCreate 1000 (region_500\<lparr>x_lower := 0, x_upper := 50\<rparr>) = Terminated OutOfBounds"
  by (simp add: jsCircleHoughCreate_def CircleHough_ctor_def region_500_def
      Constraints_ctor_eq is_i32_def Let_def linrange_def)

lemma create_full_range:
  "jsCircleHoughCreate 1 full_range = Returned (Some (detector_of 1 full_range))"
proof -
  have "CircleHough_ctor 1 full_range = Inr (detector_of 1 full_range)"
    by (rule CircleHough_ctor_I) (simp_all add: full_range_def wf_constraints_def is_i32_def is_u32_def)
  then show ?thesis by (simp add: jsCircleHoughCreate_def)
qed

lemma calculate_full_range:
  "jsCircleHoughCalculate (Some (detector_of 1 full_range)) [sample 0 0] = Inl DivideError"
  by (simp add: jsCircleHoughCalculate_def map_hough_def vote_point_def find_index_def
      div_i32_def detector_of_def full_range_def sample_def to_i32_def Let_def)

subsection \<open>One vote\<close>

lemma double_to_i32_of_int: "is_i32 k \<Longrightarrow> double_to_i32 (real_of_int k) = Inr k"
  by (simp add: double_to_i32_def)

lemma wf_axis_centre_i32:
  assumes "wf_axis a" "0 \<le> i" "i < steps a"
  shows "is_i32 (lower a + i * step_size a)"
proof -
  have st: "0 < step_size a" and lo: "is_i32 (lower a)" and up: "is_i32 (upper a)"
    and n: "steps a = (upper a - lower a) div step_size a"
    using assms(1) by (simp_all add: wf_axis_def)
  have "i * step_size a \<le> steps a * step_size a"
    using assms(3) st by (simp add: mult_right_mono)
  also have "\<dots> \<le> upper a - lower a"
  proof -
    have "(upper a - lower a) div step_size a * step_size a + (upper a - lower a) mod step_size a
          = upper a - lower a" by simp
    moreover have "0 \<le> (upper a - lower a) mod step_size a" using st by simp
    ultimately show ?thesis unfolding n by linarith
  qed
  finally have "lower a + i * step_size a \<le> upper a" by simp
  moreover have "0 \<le> i * step_size a" using assms(2) st by simp
  ultimately show ?thesis using lo up by (simp add: is_i32_def)
qed

lemma peak_inv_D:
  assumes "peak_inv ch (bins, res)"
  shows "length bins = nat (steps (m_cy ch))"
    and "j < nat (steps (m_cy ch)) \<Longrightarrow> length (bins ! j) = nat (steps (m_cx ch))"
    and "j < nat (steps (m_cy ch)) \<Longrightarrow> i < nat (steps (m_cx ch)) \<Longrightarrow> 0 \<le> bins ! j ! i"
    and "j < nat (steps (m_cy ch)) \<Longrightarrow> i < nat (steps (m_cx ch)) \<Longrightarrow> bins ! j ! i \<le> res_weight res"
    and "0 \<le> res_weight res"
proof -
  show len: "length bins = nat (steps (m_cy ch))" using assms by (simp add: peak_inv_def)
  show "length (bins ! j) = nat (steps (m_cx ch))" if "j < nat (steps (m_cy ch))"
    using assms that len by (simp add: peak_inv_def)
  show "0 \<le> bins ! j ! i" if "j < nat (steps (m_cy ch))" "i < nat (steps (m_cx ch))"
    using assms that by (simp add: peak_inv_def)
  show "bins ! j ! i \<le> res_weight res" if "j < nat (steps (m_cy ch))" "i < nat (steps (m_cx ch))"
    using assms that by (simp add: peak_inv_def)
  show "0 \<le> res_weight res" using assms by (auto simp: peak_inv_def)
qed

lemma vote_accum:
  assumes wf: "wf_detector ch" and inv: "peak_inv ch s"
    and i: "0 \<le> i" "i < steps (m_cx ch) - 1" and j: "0 \<le> j" "j < steps (m_cy ch) - 1"
  shows "vote ch lower_lim upper_lim p j s i =
         Inr (accum ch (kernel_vote ch lower_lim upper_lim p) j s i)"
proof -
  obtain bins res where s: "s = (bins, res)" by (cases s)
  have ax: "wf_axis (m_cx ch)" and ay: "wf_axis (m_cy ch)" using wf by (simp_all add: wf_detector_def)
  have ni: "nat i < nat (steps (m_cx ch))" and nj: "nat j < nat (steps (m_cy ch))"
    using i j by simp_all
  have lx: "length (m_bx ch) = nat (steps (m_cx ch))" and ly: "length (m_by ch) = nat (steps (m_cy ch))"
    using wf by (simp_all add: wf_detector_def)
  have bx: "m_bx ch ! nat i = real_of_int (lower (m_cx ch) + i * step_size (m_cx ch))"
    using wf ni i by (simp add: wf_detector_def)
  have "by": "m_by ch ! nat j = real_of_int (lower (m_cy ch) + j * step_size (m_cy ch))"
    using wf nj j by (simp add: wf_detector_def)
  have cx: "double_to_i32 (m_bx ch ! nat i) = Inr (lower (m_cx ch) + i * step_size (m_cx ch))"
    unfolding bx using wf_axis_centre_i32 [OF ax, of i] i by (intro double_to_i32_of_int) simp
  have cy: "double_to_i32 (m_by ch ! nat j) = Inr (lower (m_cy ch) + j * step_size (m_cy ch))"
    unfolding "by" using wf_axis_centre_i32 [OF ay, of j] j by (intro double_to_i32_of_int) simp
  note d = peak_inv_D [OF inv [unfolded s]]
  have idx: "\<not> (i < 0 \<or> int (length (m_bx ch)) \<le> i \<or> j < 0 \<or> int (length (m_by ch)) \<le> j)"
    using i j lx ly by simp
  have idx2: "\<not> (int (length bins) \<le> j \<or> int (length (bins ! nat j)) \<le> i)"
    using i j d(1) d(2) [OF nj] by simp
  have le: "bins ! nat j ! nat i \<le> res_weight res" using d(4) [OF nj ni] .
  show ?thesis
  proof (cases "r_sqr_of ch p (nat j) (nat i) < lower_lim \<or> r_sqr_of ch p (nat j) (nat i) > upper_lim")
    case True
    then have k: "kernel_vote ch lower_lim upper_lim p (nat j) (nat i) = 0"
      by (simp add: kernel_vote_def)
    have "accum ch (kernel_vote ch lower_lim upper_lim p) j s i = (bins, res)"
      using le by (simp add: accum_def s k)
    moreover have "vote ch lower_lim upper_lim p j s i = Inr (bins, res)"
      using True idx unfolding vote_def s r_sqr_of_def Let_def by simp
    ultimately show ?thesis by simp
  next
    case False
    then have k: "kernel_vote ch lower_lim upper_lim p (nat j) (nat i) =
                  pdf (m_dist ch) (sqrt (r_sqr_of ch p (nat j) (nat i)))"
      by (simp add: kernel_vote_def)
    show ?thesis
      using False idx idx2 unfolding vote_def s accum_def r_sqr_of_def [symmetric] kernel_vote_def Let_def
      by (simp add: cx cy r_sqr_of_def)
  qed
qed



lemma accum_nth:
  assumes "peak_inv ch (bins, res)"
    and "0 \<le> i" "i < steps (m_cx ch)" "0 \<le> j" "j < steps (m_cy ch)"
    and "j' < nat (steps (m_cy ch))" "i' < nat (steps (m_cx ch))"
  shows "fst (accum ch k j (bins, res) i) ! j' ! i' =
         bins ! j' ! i' + (if j' = nat j \<and> i' = nat i then k j' i' else 0)"
proof -
  note d = peak_inv_D [OF assms(1)]
  have nj: "nat j < length bins" using assms(4,5) d(1) by simp
  have ni: "nat i < length (bins ! nat j)" using assms(2,3) d(2) [of "nat j"] nj d(1) by simp
  show ?thesis using nj ni assms(6) d(1)
    by (simp add: accum_def Let_def nth_list_update)
qed

lemma accum_snd:
  "snd (accum ch k j (bins, res) i) =
     (if bins ! nat j ! nat i + k (nat j) (nat i) > res_weight res
      then \<lparr>res_weight = bins ! nat j ! nat i + k (nat j) (nat i),
            res_x = lower (m_cx ch) + i * step_size (m_cx ch),
            res_y = lower (m_cy ch) + j * step_size (m_cy ch)\<rparr>
      else res)"
  by (simp add: accum_def Let_def)

lemma accum_shape:
  assumes "peak_inv ch (bins, res)"
  shows "length (fst (accum ch k j (bins, res) i)) = nat (steps (m_cy ch)) \<and>
         (\<forall>row\<in>set (fst (accum ch k j (bins, res) i)). length row = nat (steps (m_cx ch)))"
proof -
  have len: "length bins = nat (steps (m_cy ch))"
    and rows: "\<forall>row\<in>set bins. length row = nat (steps (m_cx ch))"
    using assms by (simp_all add: peak_inv_def)
  let ?w = "bins ! nat j ! nat i + k (nat j) (nat i)"
  have "set (bins[nat j := (bins ! nat j)[nat i := ?w]]) \<subseteq>
        insert ((bins ! nat j)[nat i := ?w]) (set bins)"
    by (rule set_update_subset_insert)
  moreover have "length ((bins ! nat j)[nat i := ?w]) = nat (steps (m_cx ch))"
    if "nat j < length bins" using that rows by simp
  moreover have "bins[nat j := (bins ! nat j)[nat i := ?w]] = bins" if "\<not> nat j < length bins"
    using that by (simp add: list_update_beyond)
  ultimately have "\<forall>row\<in>set (bins[nat j := (bins ! nat j)[nat i := ?w]]).
      length row = nat (steps (m_cx ch))"
    using rows by (cases "nat j < length bins") auto
  then show ?thesis using len by (simp add: accum_def Let_def)
qed

lemma accum_inv:
  assumes inv: "peak_inv ch s"
    and i: "0 \<le> i" "i < steps (m_cx ch) - 1" and j: "0 \<le> j" "j < steps (m_cy ch) - 1"
    and k: "0 \<le> k (nat j) (nat i)"
  shows "peak_inv ch (accum ch k j s i)"
proof -
  obtain bins res where s: "s = (bins, res)" by (cases s)
  note inv' = inv [unfolded s]
  note d = peak_inv_D [OF inv']
  define nx where "nx = nat (steps (m_cx ch))"
  define ny where "ny = nat (steps (m_cy ch))"
  define w where "w = bins ! nat j ! nat i + k (nat j) (nat i)"
  define bins' where "bins' = fst (accum ch k j (bins, res) i)"
  define res' where "res' = snd (accum ch k j (bins, res) i)"
  have ni: "nat i < nx - 1" and nj: "nat j < ny - 1" using i j by (simp_all add: nx_def ny_def)
  have nth: "bins' ! j' ! i' = (if j' = nat j \<and> i' = nat i then w else bins ! j' ! i')"
    if "j' < ny" "i' < nx" for j' i'
    using accum_nth [OF inv', of i j j' i' k] that i j
    by (simp add: bins'_def nx_def ny_def w_def)
  have res': "res' = (if w > res_weight res
      then \<lparr>res_weight = w, res_x = lower (m_cx ch) + i * step_size (m_cx ch),
            res_y = lower (m_cy ch) + j * step_size (m_cy ch)\<rparr> else res)"
    by (simp add: res'_def accum_snd w_def)
  have ni': "nat i < nat (steps (m_cx ch))" and nj': "nat j < nat (steps (m_cy ch))"
    using i j by simp_all
  have old: "bins ! nat j ! nat i \<le> res_weight res" "0 \<le> bins ! nat j ! nat i"
    using d(4) [OF nj' ni'] d(3) [OF nj' ni'] by simp_all
  have w_ge: "bins ! nat j ! nat i \<le> w" using k by (simp add: w_def)
  have wt: "res_weight res' = max w (res_weight res)" by (simp add: res')
  have shape: "length bins' = ny \<and> (\<forall>row\<in>set bins'. length row = nx)"
    using accum_shape [OF inv'] by (simp add: bins'_def nx_def ny_def)
  have bounds: "0 \<le> bins' ! j' ! i' \<and> bins' ! j' ! i' \<le> res_weight res' \<and>
                (i' = nx - 1 \<or> j' = ny - 1 \<longrightarrow> bins' ! j' ! i' = 0)"
    if "j' < ny" "i' < nx" for j' i'
  proof -
    have o: "0 \<le> bins ! j' ! i'" "bins ! j' ! i' \<le> res_weight res"
      using d(3) [of j' i'] d(4) [of j' i'] that unfolding nx_def ny_def by blast+
    have e: "i' = nx - 1 \<or> j' = ny - 1 \<longrightarrow> bins ! j' ! i' = 0"
      using inv' that by (simp add: peak_inv_def nx_def ny_def)
    show ?thesis
    proof (cases "j' = nat j \<and> i' = nat i")
      case True
      then have b: "bins' ! j' ! i' = w" using nth [OF that] by simp
      have "0 \<le> w" using old(2) w_ge by simp
      moreover have "w \<le> res_weight res'" unfolding wt by simp
      moreover have "i' \<noteq> nx - 1" "j' \<noteq> ny - 1" using True ni nj by simp_all
      ultimately show ?thesis unfolding b by blast
    next
      case False
      then have b: "bins' ! j' ! i' = bins ! j' ! i'" using nth [OF that] by presburger
      have "res_weight res \<le> res_weight res'" unfolding wt by simp
      then have "bins ! j' ! i' \<le> res_weight res'" using o(2) by simp
      then show ?thesis unfolding b using o(1) e by blast
    qed
  qed
  have peak: "res' = \<lparr>res_weight = 0, res_x = 0, res_y = 0\<rparr> \<or>
       0 < res_weight res' \<and>
       (\<exists>i'<nx - 1. \<exists>j'<ny - 1. bins' ! j' ! i' = res_weight res' \<and>
          res_x res' = lower (m_cx ch) + int i' * step_size (m_cx ch) \<and>
          res_y res' = lower (m_cy ch) + int j' * step_size (m_cy ch))"
  proof (cases "w > res_weight res")
    case True
    have "0 < w" using True d(5) by simp
    moreover have bw: "bins' ! nat j ! nat i = w" using nth [of "nat j" "nat i"] ni nj by simp
    moreover have r: "res_weight res' = w"
      "res_x res' = lower (m_cx ch) + int (nat i) * step_size (m_cx ch)"
      "res_y res' = lower (m_cy ch) + int (nat j) * step_size (m_cy ch)"
      using True i j by (simp_all add: res')
    ultimately have "0 < res_weight res' \<and>
       (\<exists>i'<nx - 1. \<exists>j'<ny - 1. bins' ! j' ! i' = res_weight res' \<and>
          res_x res' = lower (m_cx ch) + int i' * step_size (m_cx ch) \<and>
          res_y res' = lower (m_cy ch) + int j' * step_size (m_cy ch))"
      using ni nj by metis
    then show ?thesis ..
  next
    case False
    then have same: "res' = res" by (simp add: res')
    from inv' have "res = \<lparr>res_weight = 0, res_x = 0, res_y = 0\<rparr> \<or>
       0 < res_weight res \<and>
       (\<exists>i'<nx - 1. \<exists>j'<ny - 1. bins ! j' ! i' = res_weight res \<and>
          res_x res = lower (m_cx ch) + int i' * step_size (m_cx ch) \<and>
          res_y res = lower (m_cy ch) + int j' * step_size (m_cy ch))"
      by (simp add: peak_inv_def nx_def ny_def)
    then show ?thesis
    proof
      assume "res = \<lparr>res_weight = 0, res_x = 0, res_y = 0\<rparr>"
      then show ?thesis using same by simp
    next
      assume a: "0 < res_weight res \<and>
       (\<exists>i'<nx - 1. \<exists>j'<ny - 1. bins ! j' ! i' = res_weight res \<and>
          res_x res = lower (m_cx ch) + int i' * step_size (m_cx ch) \<and>
          res_y res = lower (m_cy ch) + int j' * step_size (m_cy ch))"
      then obtain i0 j0 where ij: "i0 < nx - 1" "j0 < ny - 1" "bins ! j0 ! i0 = res_weight res"
          "res_x res = lower (m_cx ch) + int i0 * step_size (m_cx ch)"
          "res_y res = lower (m_cy ch) + int j0 * step_size (m_cy ch)" by blast
      have "bins' ! j0 ! i0 = res_weight res"
      proof (cases "j0 = nat j \<and> i0 = nat i")
        case True
        then have "bins' ! j0 ! i0 = w" using nth [of j0 i0] ij(1,2) by simp
        moreover have "w = res_weight res" using False w_ge True ij(3) by simp
        ultimately show ?thesis by simp
      next
        case False
        then show ?thesis using nth [of j0 i0] ij(1,2,3) by auto
      qed
      then show ?thesis using a ij same by auto
    qed
  qed
  have "peak_inv ch (bins', res')"
    unfolding peak_inv_def using shape bounds peak by (simp add: nx_def ny_def)
  then show ?thesis by (simp add: s bins'_def res'_def)
qed


subsection \<open>The loops over a window\<close>

lemma row_loop:
  assumes body: "\<And>t i. peak_inv ch t \<Longrightarrow> 0 \<le> i \<Longrightarrow> i < steps (m_cx ch) - 1 \<Longrightarrow>
                   body t i = Inr (accum ch k j t i)"
    and k: "\<And>i'. 0 \<le> k (nat j) i'"
    and j: "0 \<le> j" "j < steps (m_cy ch) - 1"
    and inv: "peak_inv ch s"
    and cols: "distinct cols" "\<forall>i\<in>set cols. 0 \<le> i \<and> i < steps (m_cx ch) - 1"
  shows "\<exists>s'. for_each body cols s = Inr s' \<and> peak_inv ch s' \<and>
           (\<forall>j'<nat (steps (m_cy ch)). \<forall>i'<nat (steps (m_cx ch)).
              fst s' ! j' ! i' =
              fst s ! j' ! i' + (if j' = nat j \<and> int i' \<in> set cols then k j' i' else 0))"
  using inv cols
proof (induction cols arbitrary: s)
  case Nil
  then show ?case by simp
next
  case (Cons i cols)
  have i: "0 \<le> i" "i < steps (m_cx ch) - 1" using Cons.prems(3) by simp_all
  define t where "t = accum ch k j s i"
  have bt: "body s i = Inr t" using body [OF Cons.prems(1) i] by (simp add: t_def)
  have inv_t: "peak_inv ch t"
    unfolding t_def using accum_inv [OF Cons.prems(1) i j] k by simp
  obtain bins res where s: "s = (bins, res)" by (cases s)
  have nth_t: "fst t ! j' ! i' = fst s ! j' ! i' + (if j' = nat j \<and> i' = nat i then k j' i' else 0)"
    if "j' < nat (steps (m_cy ch))" "i' < nat (steps (m_cx ch))" for j' i'
    using accum_nth [OF Cons.prems(1) [unfolded s], of i j j' i' k] that i j
    by (simp add: t_def s)
  from Cons.IH [OF inv_t] Cons.prems(2,3)
  obtain s' where s': "for_each body cols t = Inr s'" "peak_inv ch s'"
    "\<forall>j'<nat (steps (m_cy ch)). \<forall>i'<nat (steps (m_cx ch)).
              fst s' ! j' ! i' =
              fst t ! j' ! i' + (if j' = nat j \<and> int i' \<in> set cols then k j' i' else 0)"
    by auto
  have "fst s' ! j' ! i' =
        fst s ! j' ! i' + (if j' = nat j \<and> int i' \<in> set (i # cols) then k j' i' else 0)"
    if lt: "j' < nat (steps (m_cy ch))" "i' < nat (steps (m_cx ch))" for j' i'
  proof -
    have a: "fst s' ! j' ! i' =
             fst t ! j' ! i' + (if j' = nat j \<and> int i' \<in> set cols then k j' i' else 0)"
      using s'(3) lt by blast
    have ni: "i \<notin> set cols" using Cons.prems(2) by simp
    have eq: "i' = nat i \<longleftrightarrow> int i' = i" using i(1) by auto
    show ?thesis
    proof (cases "int i' = i")
      case True
      then have "int i' \<notin> set cols" using ni by simp
      then show ?thesis using a nth_t [OF lt] True eq by simp
    next
      case False
      then show ?thesis using a nth_t [OF lt] eq by simp
    qed
  qed
  then show ?case using bt s'(1,2) by simp
qed

lemma sweep_loop:
  assumes body: "\<And>j t i. peak_inv ch t \<Longrightarrow> 0 \<le> j \<Longrightarrow> j < steps (m_cy ch) - 1 \<Longrightarrow>
                   0 \<le> i \<Longrightarrow> i < steps (m_cx ch) - 1 \<Longrightarrow> body j t i = Inr (accum ch k j t i)"
    and k: "\<And>j' i'. 0 \<le> k j' i'"
    and inv: "peak_inv ch s"
    and rows: "distinct rows" "\<forall>j\<in>set rows. 0 \<le> j \<and> j < steps (m_cy ch) - 1"
    and cols: "distinct cols" "\<forall>i\<in>set cols. 0 \<le> i \<and> i < steps (m_cx ch) - 1"
  shows "\<exists>s'. for_each (\<lambda>t j. for_each (body j) cols t) rows s = Inr s' \<and> peak_inv ch s' \<and>
           (\<forall>j'<nat (steps (m_cy ch)). \<forall>i'<nat (steps (m_cx ch)).
              fst s' ! j' ! i' =
              fst s ! j' ! i' +
              (if int j' \<in> set rows \<and> int i' \<in> set cols then k j' i' else 0))"
  using inv rows
proof (induction rows arbitrary: s)
  case Nil
  then show ?case by simp
next
  case (Cons j rows)
  have j: "0 \<le> j" "j < steps (m_cy ch) - 1" using Cons.prems(3) by simp_all
  have "\<exists>t. for_each (body j) cols s = Inr t \<and> peak_inv ch t \<and>
           (\<forall>j'<nat (steps (m_cy ch)). \<forall>i'<nat (steps (m_cx ch)).
              fst t ! j' ! i' =
              fst s ! j' ! i' + (if j' = nat j \<and> int i' \<in> set cols then k j' i' else 0))"
    by (rule row_loop [OF _ _ j Cons.prems(1) cols]) (use body j k in simp_all)
  then obtain t where t: "for_each (body j) cols s = Inr t" "peak_inv ch t"
    "\<forall>j'<nat (steps (m_cy ch)). \<forall>i'<nat (steps (m_cx ch)).
              fst t ! j' ! i' =
              fst s ! j' ! i' + (if j' = nat j \<and> int i' \<in> set cols then k j' i' else 0)"
    by blast
  from Cons.IH [OF t(2)] Cons.prems(2,3)
  obtain s' where s': "for_each (\<lambda>t j. for_each (body j) cols t) rows t = Inr s'" "peak_inv ch s'"
    "\<forall>j'<nat (steps (m_cy ch)). \<forall>i'<nat (steps (m_cx ch)).
              fst s' ! j' ! i' =
              fst t ! j' ! i' +
              (if int j' \<in> set rows \<and> int i' \<in> set cols then k j' i' else 0)"
    by auto
  have "fst s' ! j' ! i' =
        fst s ! j' ! i' +
        (if int j' \<in> set (j # rows) \<and> int i' \<in> set cols then k j' i' else 0)"
    if lt: "j' < nat (steps (m_cy ch))" "i' < nat (steps (m_cx ch))" for j' i'
  proof -
    have a: "fst s' ! j' ! i' =
              fst t ! j' ! i' +
              (if int j' \<in> set rows \<and> int i' \<in> set cols then k j' i' else 0)"
      using s'(3) lt by blast
    have b: "fst t ! j' ! i' =
              fst s ! j' ! i' + (if j' = nat j \<and> int i' \<in> set cols then k j' i' else 0)"
      using t(3) lt by blast
    have nj: "j \<notin> set rows" using Cons.prems(2) by simp
    have eq: "j' = nat j \<longleftrightarrow> int j' = j" using j(1) by auto
    show ?thesis
    proof (cases "int j' = j")
      case True
      then have "int j' \<notin> set rows" using nj by simp
      then show ?thesis using a b True eq by simp
    next
      case False
      then show ?thesis using a b eq by simp
    qed
  qed
  then show ?case using t(1) s'(1,2) by simp
qed

lemma sweep_spec:
  assumes body: "\<And>j t i. peak_inv ch t \<Longrightarrow> 0 \<le> j \<Longrightarrow> j < steps (m_cy ch) - 1 \<Longrightarrow>
                   0 \<le> i \<Longrightarrow> i < steps (m_cx ch) - 1 \<Longrightarrow> body j t i = Inr (accum ch k j t i)"
    and k: "\<And>j' i'. 0 \<le> k j' i'"
    and inv: "peak_inv ch s"
    and wf: "wf_detector ch"
    and x: "0 \<le> x_start" "x_start \<le> steps (m_cx ch) - 1" "0 \<le> x_end" "x_end \<le> steps (m_cx ch) - 1"
    and y: "0 \<le> y_start" "y_start \<le> steps (m_cy ch) - 1" "0 \<le> y_end" "y_end \<le> steps (m_cy ch) - 1"
  shows "\<exists>s'. sweep body (x_start, x_end, y_start, y_end) s = Inr s' \<and> peak_inv ch s' \<and>
           (\<forall>j'<nat (steps (m_cy ch)). \<forall>i'<nat (steps (m_cx ch)).
              fst s' ! j' ! i' =
              fst s ! j' ! i' +
              (if x_start \<le> int i' \<and> int i' < x_end \<and> y_start \<le> int j' \<and> int j' < y_end
               then k j' i' else 0))"
proof -
  have ax: "steps (m_cx ch) \<le> 2147483647" and ay: "steps (m_cy ch) \<le> 2147483647"
    using wf unfolding wf_detector_def wf_axis_def by blast+
  have c: "to_i32 x_start = x_start" "to_i32 x_end = x_end" "to_i32 y_start = y_start"
    "to_i32 y_end = y_end"
    using x y ax ay by (simp_all add: to_i32_id is_i32_def)
  have m: "a \<in> set [lo..hi - 1] \<longleftrightarrow> lo \<le> a \<and> a < hi" for a lo hi :: int
    by auto
  have "\<exists>s'. for_each (\<lambda>t j. for_each (body j) [x_start..x_end - 1] t) [y_start..y_end - 1] s = Inr s'
           \<and> peak_inv ch s' \<and>
           (\<forall>j'<nat (steps (m_cy ch)). \<forall>i'<nat (steps (m_cx ch)).
              fst s' ! j' ! i' =
              fst s ! j' ! i' +
              (if int j' \<in> set [y_start..y_end - 1] \<and> int i' \<in> set [x_start..x_end - 1]
               then k j' i' else 0))"
    by (rule sweep_loop [OF body k inv]) (use x y in auto)
  then obtain s' where s':
    "for_each (\<lambda>t j. for_each (body j) [x_start..x_end - 1] t) [y_start..y_end - 1] s = Inr s'"
    "peak_inv ch s'"
    "\<forall>j'<nat (steps (m_cy ch)). \<forall>i'<nat (steps (m_cx ch)).
              fst s' ! j' ! i' =
              fst s ! j' ! i' +
              (if (y_start \<le> int j' \<and> int j' < y_end) \<and> (x_start \<le> int i' \<and> int i' < x_end)
               then k j' i' else 0)"
    unfolding m by blast
  have "sweep body (x_start, x_end, y_start, y_end) s = Inr s'"
    using s'(1) by (simp add: sweep_def c)
  moreover have "fst s' ! j' ! i' =
              fst s ! j' ! i' +
              (if x_start \<le> int i' \<and> int i' < x_end \<and> y_start \<le> int j' \<and> int j' < y_end
               then k j' i' else 0)"
    if "j' < nat (steps (m_cy ch))" "i' < nat (steps (m_cx ch))" for j' i'
  proof -
    have "fst s' ! j' ! i' =
              fst s ! j' ! i' +
              (if (y_start \<le> int j' \<and> int j' < y_end) \<and> (x_start \<le> int i' \<and> int i' < x_end)
               then k j' i' else 0)"
      using s'(3) that by blast
    then show ?thesis by (simp add: conj_ac)
  qed
  ultimately show ?thesis using s'(2) by blast
qed


subsection \<open>The kernel is not negative\<close>

lemma pdf_nonneg:
  assumes "0 < m_sigma d" "m_one_over_sigma d = 1 / m_sigma d"
  shows "0 \<le> pdf d v"
proof (cases "\<bar>v - m_mu d\<bar> > m_sigma d")
  case True
  then show ?thesis by (simp add: pdf_def)
next
  case False
  then have "\<bar>v - m_mu d\<bar> / m_sigma d \<le> 1" using assms(1) by simp
  then have "0 \<le> 1 - \<bar>(v - m_mu d) * m_one_over_sigma d\<bar>"
    using assms by (simp add: abs_mult abs_divide)
  moreover have "0 \<le> m_one_over_sigma d" using assms by simp
  ultimately show ?thesis using False by (simp add: pdf_def)
qed

lemma wf_detector_dist:
  assumes "wf_detector ch"
  shows "0 < m_sigma (m_dist ch)" "m_one_over_sigma (m_dist ch) = 1 / m_sigma (m_dist ch)"
    "m_sigma (m_dist ch) = real_of_int (step_size (m_cx ch))"
    "m_mu (m_dist ch) = real_of_int (m_radius ch)"
  using assms by (simp_all add: wf_detector_def wf_axis_def SymTriangleDist_ctor_def)

lemma kernel_vote_nonneg: "wf_detector ch \<Longrightarrow> 0 \<le> kernel_vote ch ll ul p j i"
  using pdf_nonneg [OF wf_detector_dist(1,2)] by (simp add: kernel_vote_def)


subsection \<open>One point of the profile\<close>

lemma vote_point_window:
  "vote_point ch radius step ll ul s p =
   and_then (window ch radius step p) (\<lambda>w. sweep (vote ch ll ul p) w s)"
  by (simp add: vote_point_def window_def sweep_def and_then_def split: sum.splits)


lemma window_range:
  assumes "wf_detector ch" "window ch radius step p = Inr (x_start, x_end, y_start, y_end)"
  shows "0 \<le> x_start \<and> x_start \<le> steps (m_cx ch) - 1 \<and> 0 \<le> x_end \<and> x_end \<le> steps (m_cx ch) - 1 \<and>
         0 \<le> y_start \<and> y_start \<le> steps (m_cy ch) - 1 \<and> 0 \<le> y_end \<and> y_end \<le> steps (m_cy ch) - 1"
proof -
  have ax: "wf_axis (m_cx ch)" and ay: "wf_axis (m_cy ch)"
    using assms(1) by (simp_all add: wf_detector_def)
  from assms(2) have
    "find_index (to_i32 (to_i32 (pt_x p - radius) - step)) (m_cx ch) = Inr x_start"
    "find_index (to_i32 (to_i32 (pt_x p + radius) + step)) (m_cx ch) = Inr x_end"
    "find_index (to_i32 (to_i32 (pt_y p - radius) - step)) (m_cy ch) = Inr y_start"
    "find_index (to_i32 (pt_y p + step)) (m_cy ch) = Inr y_end"
    by (auto simp: window_def and_then_eq_Inr)
  then show ?thesis
    using find_index_range [OF ax] find_index_range [OF ay] by blast
qed

lemma window_total:
  assumes "wf_detector ch" "step_size (m_cx ch) \<noteq> 4294967295"
  shows "\<exists>w. window ch radius step p = Inr w"
proof -
  have ax: "wf_axis (m_cx ch)" and ay: "wf_axis (m_cy ch)"
    and sy: "step_size (m_cy ch) \<noteq> 4294967295"
    using assms by (simp_all add: wf_detector_def)
  obtain a where a: "find_index (to_i32 (to_i32 (pt_x p - radius) - step)) (m_cx ch) = Inr a"
    using find_index_total [OF ax assms(2)] by blast
  obtain b where b: "find_index (to_i32 (to_i32 (pt_x p + radius) + step)) (m_cx ch) = Inr b"
    using find_index_total [OF ax assms(2)] by blast
  obtain c where c: "find_index (to_i32 (to_i32 (pt_y p - radius) - step)) (m_cy ch) = Inr c"
    using find_index_total [OF ay sy] by blast
  obtain d where d: "find_index (to_i32 (pt_y p + step)) (m_cy ch) = Inr d"
    using find_index_total [OF ay sy] by blast
  show ?thesis by (simp add: window_def a b c d)
qed

lemma windowed_sweep:
  assumes body: "\<And>j t i. peak_inv ch t \<Longrightarrow> 0 \<le> j \<Longrightarrow> j < steps (m_cy ch) - 1 \<Longrightarrow>
                   0 \<le> i \<Longrightarrow> i < steps (m_cx ch) - 1 \<Longrightarrow> body j t i = Inr (accum ch (k p) j t i)"
    and k: "\<And>j' i'. 0 \<le> k p j' i'"
    and wf: "wf_detector ch" and inv: "peak_inv ch s"
    and run: "and_then (window ch (m_radius ch) (to_i32 (step_size (m_cx ch))) p)
                (\<lambda>w. sweep body w s) = r"
  shows "case window ch (m_radius ch) (to_i32 (step_size (m_cx ch))) p of
           Inl e \<Rightarrow> r = Inl e
         | Inr w \<Rightarrow> \<exists>s'. r = Inr s' \<and> peak_inv ch s' \<and>
             (\<forall>j'<nat (steps (m_cy ch)). \<forall>i'<nat (steps (m_cx ch)).
                fst s' ! j' ! i' = fst s ! j' ! i' + contrib ch k p j' i')"
proof (cases "window ch (m_radius ch) (to_i32 (step_size (m_cx ch))) p")
  case (Inl e)
  then show ?thesis using run by simp
next
  case (Inr w)
  obtain x_start x_end y_start y_end where w: "w = (x_start, x_end, y_start, y_end)"
    by (cases w)
  note rng = window_range [OF wf Inr [unfolded w]]
  have "\<exists>s'. sweep body (x_start, x_end, y_start, y_end) s = Inr s' \<and> peak_inv ch s' \<and>
           (\<forall>j'<nat (steps (m_cy ch)). \<forall>i'<nat (steps (m_cx ch)).
              fst s' ! j' ! i' =
              fst s ! j' ! i' +
              (if x_start \<le> int i' \<and> int i' < x_end \<and> y_start \<le> int j' \<and> int j' < y_end
               then k p j' i' else 0))"
    by (rule sweep_spec [OF body k inv wf]) (use rng in simp_all)
  moreover have "contrib ch k p j' i' =
      (if x_start \<le> int i' \<and> int i' < x_end \<and> y_start \<le> int j' \<and> int j' < y_end
               then k p j' i' else 0)" for j' i'
    by (simp add: contrib_def Inr w)
  ultimately show ?thesis using run by (simp add: Inr w)
qed

lemma vote_point_cases:
  assumes wf: "wf_detector ch" and inv: "peak_inv ch s"
  shows "case window ch (m_radius ch) (to_i32 (step_size (m_cx ch))) p of
           Inl e \<Rightarrow> vote_point ch (m_radius ch) (to_i32 (step_size (m_cx ch))) ll ul s p = Inl e
         | Inr w \<Rightarrow> \<exists>s'. vote_point ch (m_radius ch) (to_i32 (step_size (m_cx ch))) ll ul s p = Inr s' \<and>
             peak_inv ch s' \<and>
             (\<forall>j'<nat (steps (m_cy ch)). \<forall>i'<nat (steps (m_cx ch)).
                fst s' ! j' ! i' = fst s ! j' ! i' + contrib ch (kernel_vote ch ll ul) p j' i')"
  by (rule windowed_sweep [OF _ _ wf inv])
     (simp_all add: vote_accum [OF wf] kernel_vote_nonneg [OF wf] vote_point_window)


subsection \<open>The whole profile\<close>

lemma profile_loop:
  assumes step: "\<And>t p. peak_inv ch t \<Longrightarrow>
      (case window ch r st p of
         Inl e \<Rightarrow> vp t p = Inl e
       | Inr w \<Rightarrow> \<exists>t'. vp t p = Inr t' \<and> peak_inv ch t' \<and>
           (\<forall>j'<nat (steps (m_cy ch)). \<forall>i'<nat (steps (m_cx ch)).
              fst t' ! j' ! i' = fst t ! j' ! i' + c p j' i'))"
    and inv: "peak_inv ch s"
  shows "(\<forall>p\<in>set ps. \<exists>w. window ch r st p = Inr w) \<longrightarrow> (\<exists>s'. for_each vp ps s = Inr s')"
    and "for_each vp ps s = Inr s' \<longrightarrow> peak_inv ch s' \<and>
           (\<forall>j'<nat (steps (m_cy ch)). \<forall>i'<nat (steps (m_cx ch)).
              fst s' ! j' ! i' = fst s ! j' ! i' + sum_list (map (\<lambda>p. c p j' i') ps))"
  using inv
proof (induction ps arbitrary: s)
  case Nil
  {
    case 1
    then show ?case by simp
  next
    case 2
    then show ?case by auto
  }
next
  case (Cons p ps)
  {
    case 1
    show ?case
    proof
      assume all: "\<forall>q\<in>set (p # ps). \<exists>w. window ch r st q = Inr w"
      then obtain w where w: "window ch r st p = Inr w" by auto
      from step [OF 1, of p] w obtain t where t: "vp s p = Inr t" "peak_inv ch t" by auto
      from Cons.IH(1) [OF t(2)] all obtain s' where "for_each vp ps t = Inr s'" by auto
      then show "\<exists>s'. for_each vp (p # ps) s = Inr s'" using t(1) by simp
    qed
  next
    case 2
    show ?case
    proof
      assume run: "for_each vp (p # ps) s = Inr s'"
      then obtain t where t: "vp s p = Inr t" "for_each vp ps t = Inr s'"
        by (auto simp: and_then_eq_Inr)
      have "\<exists>w. window ch r st p = Inr w"
      proof (cases "window ch r st p")
        case (Inl e)
        then show ?thesis using step [OF 2, of p] t(1) by simp
      next
        case (Inr w)
        then show ?thesis by blast
      qed
      then obtain w where w: "window ch r st p = Inr w" by blast
      from step [OF 2, of p] w t(1) have t2: "peak_inv ch t"
        and t3: "\<forall>j'<nat (steps (m_cy ch)). \<forall>i'<nat (steps (m_cx ch)).
              fst t ! j' ! i' = fst s ! j' ! i' + c p j' i'" by auto
      from Cons.IH(2) [OF t2] t(2) have s1: "peak_inv ch s'"
        and s2: "\<forall>j'<nat (steps (m_cy ch)). \<forall>i'<nat (steps (m_cx ch)).
              fst s' ! j' ! i' = fst t ! j' ! i' + sum_list (map (\<lambda>p. c p j' i') ps)" by auto
      show "peak_inv ch s' \<and>
           (\<forall>j'<nat (steps (m_cy ch)). \<forall>i'<nat (steps (m_cx ch)).
              fst s' ! j' ! i' = fst s ! j' ! i' + sum_list (map (\<lambda>p. c p j' i') (p # ps)))"
        using s1 s2 t3 by simp
    qed
  }
qed


lemma init_inv:
  assumes "wf_detector ch"
  shows "peak_inv ch (map (\<lambda>row. map (\<lambda>_. 0) row) (m_bins ch),
                      \<lparr>res_weight = 0, res_x = 0, res_y = 0\<rparr>)"
  using assms by (simp add: peak_inv_def wf_detector_def)

lemma map_hough_Inr:
  assumes wf: "wf_detector ch" and run: "map_hough ch ps = Inr (res, ch')"
  shows "ch' = ch\<lparr>m_bins := m_bins ch'\<rparr>"
    and "peak_inv ch (m_bins ch', res)"
    and "j < nat (steps (m_cy ch)) \<Longrightarrow> i < nat (steps (m_cx ch)) \<Longrightarrow>
         m_bins ch' ! j ! i =
         sum_list (map (\<lambda>p. contrib ch (kernel_vote ch (lim_lower ch) (lim_upper ch)) p j i) ps)"
proof -
  let ?s0 = "(map (\<lambda>row. map (\<lambda>_. 0::real) row) (m_bins ch),
              \<lparr>res_weight = 0, res_x = 0, res_y = 0\<rparr>)"
  let ?vp = "vote_point ch (m_radius ch) (to_i32 (step_size (m_cx ch))) (lim_lower ch) (lim_upper ch)"
  from run obtain bins' where loop: "for_each ?vp ps ?s0 = Inr (bins', res)"
    and ch': "ch' = ch\<lparr>m_bins := bins'\<rparr>"
    by (auto simp: map_hough_def Let_def and_then_eq_Inr lim_lower_def lim_upper_def)
  show "ch' = ch\<lparr>m_bins := m_bins ch'\<rparr>" by (simp add: ch')
  have pl: "peak_inv ch (bins', res) \<and>
           (\<forall>j'<nat (steps (m_cy ch)). \<forall>i'<nat (steps (m_cx ch)).
              fst (bins', res) ! j' ! i' = fst ?s0 ! j' ! i' +
              sum_list (map (\<lambda>p. contrib ch (kernel_vote ch (lim_lower ch) (lim_upper ch)) p j' i') ps))"
    using profile_loop(2) [where ch = ch and r = "m_radius ch"
      and st = "to_i32 (step_size (m_cx ch))" and vp = ?vp
      and c = "contrib ch (kernel_vote ch (lim_lower ch) (lim_upper ch))"
      and s = ?s0 and ps = ps and s' = "(bins', res)"]
      vote_point_cases [OF wf] init_inv [OF wf] loop by blast
  show "peak_inv ch (m_bins ch', res)" using pl by (simp add: ch')
  show "m_bins ch' ! j ! i =
         sum_list (map (\<lambda>p. contrib ch (kernel_vote ch (lim_lower ch) (lim_upper ch)) p j i) ps)"
    if "j < nat (steps (m_cy ch))" "i < nat (steps (m_cx ch))"
  proof -
    have "length (m_bins ch) = nat (steps (m_cy ch))"
      "\<forall>row\<in>set (m_bins ch). length row = nat (steps (m_cx ch))"
      using wf by (simp_all add: wf_detector_def)
    then have "fst ?s0 ! j ! i = 0" using that by simp
    then show ?thesis using pl that by (simp add: ch')
  qed
qed

lemma map_hough_total:
  assumes wf: "wf_detector ch" and st: "step_size (m_cx ch) \<noteq> 4294967295"
  shows "\<exists>res ch'. map_hough ch ps = Inr (res, ch')"
proof -
  let ?s0 = "(map (\<lambda>row. map (\<lambda>_. 0::real) row) (m_bins ch),
              \<lparr>res_weight = 0, res_x = 0, res_y = 0\<rparr>)"
  let ?vp = "vote_point ch (m_radius ch) (to_i32 (step_size (m_cx ch))) (lim_lower ch) (lim_upper ch)"
  have "\<exists>s'. for_each ?vp ps ?s0 = Inr s'"
    using profile_loop(1) [where ch = ch and r = "m_radius ch"
      and st = "to_i32 (step_size (m_cx ch))" and vp = ?vp
      and c = "contrib ch (kernel_vote ch (lim_lower ch) (lim_upper ch))"
      and s = ?s0 and ps = ps]
      vote_point_cases [OF wf] init_inv [OF wf] window_total [OF wf st]
    by blast
  then obtain bins' res where "for_each ?vp ps ?s0 = Inr (bins', res)" by force
  then show ?thesis
    by (simp add: map_hough_def Let_def lim_lower_def lim_upper_def)
qed


lemma map_hough_keeps_wf:
  assumes "wf_detector ch" "map_hough ch ps = Inr (res, ch')"
  shows "wf_detector ch'"
proof -
  note r = map_hough_Inr(1,2) [OF assms]
  have "length (m_bins ch') = nat (steps (m_cy ch))"
    "\<forall>row\<in>set (m_bins ch'). length row = nat (steps (m_cx ch))"
    using r(2) by (simp_all add: peak_inv_def)
  then show ?thesis using assms(1) by (subst r(1)) (simp add: wf_detector_def)
qed


subsection \<open>What the invariant says about a finished call\<close>

lemma nth_mem_concat:
  assumes "j < length bins" "i < length (bins ! j)"
  shows "bins ! j ! i \<in> set (concat bins)"
proof -
  have "bins ! j \<in> set bins" using assms(1) by simp
  moreover have "bins ! j ! i \<in> set (bins ! j)" using assms(2) by simp
  ultimately show ?thesis by auto
qed

lemma mem_concat_nth:
  assumes "v \<in> set (concat bins)"
  shows "\<exists>j<length bins. \<exists>i<length (bins ! j). v = bins ! j ! i"
proof -
  from assms obtain row where row: "row \<in> set bins" "v \<in> set row" by auto
  then obtain j where j: "j < length bins" "row = bins ! j" by (auto simp: in_set_conv_nth)
  from row(2) obtain i where "i < length row" "v = row ! i" by (auto simp: in_set_conv_nth)
  then show ?thesis using j by blast
qed

lemma peak_inv_Max:
  assumes inv: "peak_inv ch (bins, res)"
    and pos: "1 \<le> steps (m_cx ch)" "1 \<le> steps (m_cy ch)"
  shows "res_weight res = Max (set (concat bins))"
proof -
  note d = peak_inv_D [OF inv]
  have le: "v \<le> res_weight res" if "v \<in> set (concat bins)" for v
  proof -
    from mem_concat_nth [OF that] obtain j i where
      ji: "j < length bins" "i < length (bins ! j)" "v = bins ! j ! i" by blast
    have "j < nat (steps (m_cy ch))" using ji(1) d(1) by simp
    moreover from this have "i < nat (steps (m_cx ch))" using ji(2) d(2) by simp
    ultimately show ?thesis using d(4) ji(3) by simp
  qed
  have mem: "res_weight res \<in> set (concat bins)"
  proof -
    from inv have "res = \<lparr>res_weight = 0, res_x = 0, res_y = 0\<rparr> \<or>
       0 < res_weight res \<and>
       (\<exists>i<nat (steps (m_cx ch)) - 1. \<exists>j<nat (steps (m_cy ch)) - 1.
           bins ! j ! i = res_weight res)"
      by (auto simp: peak_inv_def)
    then show ?thesis
    proof
      assume z: "res = \<lparr>res_weight = 0, res_x = 0, res_y = 0\<rparr>"
      have j0: "0 < nat (steps (m_cy ch))" and i0: "0 < nat (steps (m_cx ch))" using pos by simp_all
      have "bins ! 0 ! 0 \<le> 0" using d(4) [OF j0 i0] z by simp
      then have "bins ! 0 ! 0 = res_weight res" using d(3) [OF j0 i0] z by simp
      moreover have "bins ! 0 ! 0 \<in> set (concat bins)"
        using nth_mem_concat [of 0 bins 0] d(1) d(2) [OF j0] j0 i0 by simp
      ultimately show ?thesis by simp
    next
      assume "0 < res_weight res \<and>
       (\<exists>i<nat (steps (m_cx ch)) - 1. \<exists>j<nat (steps (m_cy ch)) - 1.
           bins ! j ! i = res_weight res)"
      then obtain i j where ij: "i < nat (steps (m_cx ch)) - 1" "j < nat (steps (m_cy ch)) - 1"
        "bins ! j ! i = res_weight res" by blast
      have "j < nat (steps (m_cy ch))" "i < nat (steps (m_cx ch))" using ij(1,2) by simp_all
      then have "bins ! j ! i \<in> set (concat bins)"
        using nth_mem_concat [of j bins i] d(1) d(2) [of j] by simp
      then show ?thesis using ij(3) by simp
    qed
  qed
  show ?thesis
    by (rule Max_eqI [symmetric]) (use le mem in simp_all)
qed

lemma peak_inv_zero:
  assumes inv: "peak_inv ch (bins, res)" and z: "res_weight res = 0"
  shows "list_all (list_all (\<lambda>v. v = 0)) bins"
proof -
  note d = peak_inv_D [OF inv]
  have "bins ! j ! i = 0" if "j < length bins" "i < length (bins ! j)" for j i
  proof -
    have j: "j < nat (steps (m_cy ch))" using that(1) d(1) by simp
    then have i: "i < nat (steps (m_cx ch))" using that(2) d(2) by simp
    show ?thesis using d(3) [OF j i] d(4) [OF j i] z by simp
  qed
  then show ?thesis by (simp add: list_all_length)
qed

lemma wf_detector_centres:
  assumes "wf_detector ch"
  shows "length (m_bx ch) = nat (steps (m_cx ch))" "length (m_by ch) = nat (steps (m_cy ch))"
    "i < nat (steps (m_cx ch)) \<Longrightarrow>
       m_bx ch ! i = real_of_int (lower (m_cx ch) + int i * step_size (m_cx ch))"
    "j < nat (steps (m_cy ch)) \<Longrightarrow>
       m_by ch ! j = real_of_int (lower (m_cy ch) + int j * step_size (m_cy ch))"
    "1 \<le> steps (m_cx ch)" "1 \<le> steps (m_cy ch)"
    "0 < step_size (m_cx ch)" "0 < step_size (m_cy ch)"
proof -
  have bx: "m_bx ch = centres (lower (m_cx ch)) (step_size (m_cx ch)) (nat (steps (m_cx ch)))"
    and "by": "m_by ch = centres (lower (m_cy ch)) (step_size (m_cy ch)) (nat (steps (m_cy ch)))"
    using assms unfolding wf_detector_def by blast+
  show "length (m_bx ch) = nat (steps (m_cx ch))" "length (m_by ch) = nat (steps (m_cy ch))"
    by (simp_all add: bx "by")
  show "i < nat (steps (m_cx ch)) \<Longrightarrow>
       m_bx ch ! i = real_of_int (lower (m_cx ch) + int i * step_size (m_cx ch))"
    by (simp add: bx)
  show "j < nat (steps (m_cy ch)) \<Longrightarrow>
       m_by ch ! j = real_of_int (lower (m_cy ch) + int j * step_size (m_cy ch))"
    by (simp add: "by")
  show "1 \<le> steps (m_cx ch)" "1 \<le> steps (m_cy ch)"
    "0 < step_size (m_cx ch)" "0 < step_size (m_cy ch)"
    using assms unfolding wf_detector_def wf_axis_def by blast+
qed

lemma peak_inv_centre:
  assumes wf: "wf_detector ch" and inv: "peak_inv ch (bins, res)"
  shows "0 < res_weight res \<and>
         (\<exists>i j. i < nat (steps (m_cx ch)) - 1 \<and> j < nat (steps (m_cy ch)) - 1 \<and>
            real_of_int (res_x res) = m_bx ch ! i \<and> real_of_int (res_y res) = m_by ch ! j \<and>
            bins ! j ! i = res_weight res) \<or>
         res = \<lparr>res_weight = 0, res_x = 0, res_y = 0\<rparr> \<and> list_all (list_all (\<lambda>v. v = 0)) bins"
proof -
  from inv have "res = \<lparr>res_weight = 0, res_x = 0, res_y = 0\<rparr> \<or>
       0 < res_weight res \<and>
       (\<exists>i<nat (steps (m_cx ch)) - 1. \<exists>j<nat (steps (m_cy ch)) - 1.
            bins ! j ! i = res_weight res \<and>
            res_x res = lower (m_cx ch) + int i * step_size (m_cx ch) \<and>
            res_y res = lower (m_cy ch) + int j * step_size (m_cy ch))"
    by (simp add: peak_inv_def)
  then show ?thesis
  proof
    assume z: "res = \<lparr>res_weight = 0, res_x = 0, res_y = 0\<rparr>"
    then have "list_all (list_all (\<lambda>v. v = 0)) bins" using peak_inv_zero [OF inv] by simp
    then show ?thesis using z by simp
  next
    assume a: "0 < res_weight res \<and>
       (\<exists>i<nat (steps (m_cx ch)) - 1. \<exists>j<nat (steps (m_cy ch)) - 1.
            bins ! j ! i = res_weight res \<and>
            res_x res = lower (m_cx ch) + int i * step_size (m_cx ch) \<and>
            res_y res = lower (m_cy ch) + int j * step_size (m_cy ch))"
    then obtain i j where ij: "i < nat (steps (m_cx ch)) - 1" "j < nat (steps (m_cy ch)) - 1"
      "bins ! j ! i = res_weight res"
      "res_x res = lower (m_cx ch) + int i * step_size (m_cx ch)"
      "res_y res = lower (m_cy ch) + int j * step_size (m_cy ch)" by blast
    have "i < nat (steps (m_cx ch))" "j < nat (steps (m_cy ch))" using ij(1,2) by simp_all
    then have "real_of_int (res_x res) = m_bx ch ! i" "real_of_int (res_y res) = m_by ch ! j"
      using wf_detector_centres(3,4) [OF wf] ij(4,5) by simp_all
    then show ?thesis using a ij(1,2,3) by blast
  qed
qed

lemma centres_strict:
  assumes "0 < st" "i < k"
  shows "real_of_int (lo + int i * st) < real_of_int (lo + int k * st)"
proof -
  have "int i * st < int k * st" using assms by simp
  then have "lo + int i * st < lo + int k * st" by simp
  then show ?thesis by (simp only: of_int_less_iff)
qed

lemma peak_inv_not_last:
  assumes wf: "wf_detector ch" and inv: "peak_inv ch (bins, res)" and pos: "0 < res_weight res"
  shows "real_of_int (res_x res) \<noteq> m_bx ch ! (nat (steps (m_cx ch)) - 1) \<and>
         real_of_int (res_y res) \<noteq> m_by ch ! (nat (steps (m_cy ch)) - 1)"
proof -
  note c = wf_detector_centres [OF wf]
  from inv pos obtain i j where ij: "i < nat (steps (m_cx ch)) - 1" "j < nat (steps (m_cy ch)) - 1"
      "res_x res = lower (m_cx ch) + int i * step_size (m_cx ch)"
      "res_y res = lower (m_cy ch) + int j * step_size (m_cy ch)"
    by (auto simp: peak_inv_def)
  have lx: "nat (steps (m_cx ch)) - 1 < nat (steps (m_cx ch))"
    and ly: "nat (steps (m_cy ch)) - 1 < nat (steps (m_cy ch))"
    using c(5,6) by simp_all
  have "real_of_int (res_x res) < m_bx ch ! (nat (steps (m_cx ch)) - 1)"
    unfolding c(3) [OF lx] ij(3) by (rule centres_strict [OF c(7) ij(1)])
  moreover have "real_of_int (res_y res) < m_by ch ! (nat (steps (m_cy ch)) - 1)"
    unfolding c(4) [OF ly] ij(4) by (rule centres_strict [OF c(8) ij(2)])
  ultimately show ?thesis by simp
qed

lemma peak_inv_edges:
  assumes inv: "peak_inv ch (bins, res)"
    and pos: "1 \<le> steps (m_cx ch)" "1 \<le> steps (m_cy ch)"
  shows "i < nat (steps (m_cx ch)) \<Longrightarrow> bins ! (nat (steps (m_cy ch)) - 1) ! i = 0"
    and "j < nat (steps (m_cy ch)) \<Longrightarrow> bins ! j ! (nat (steps (m_cx ch)) - 1) = 0"
proof -
  show "bins ! (nat (steps (m_cy ch)) - 1) ! i = 0" if "i < nat (steps (m_cx ch))"
  proof -
    have "nat (steps (m_cy ch)) - 1 < nat (steps (m_cy ch))" using pos by simp
    then show ?thesis using inv that by (simp add: peak_inv_def)
  qed
  show "bins ! j ! (nat (steps (m_cx ch)) - 1) = 0" if "j < nat (steps (m_cy ch))"
  proof -
    have "nat (steps (m_cx ch)) - 1 < nat (steps (m_cx ch))" using pos by simp
    then show ?thesis using inv that by (simp add: peak_inv_def)
  qed
qed


subsection \<open>Constructed detectors\<close>

lemma region_500_wf: "wf_constraints region_500"
  by (simp add: wf_constraints_def region_500_def is_i32_def is_u32_def)

lemma ctor_region_500:
  "0 < radius \<Longrightarrow> is_i32 radius \<Longrightarrow>
   CircleHough_ctor radius region_500 = Inr (detector_of radius region_500)"
  by (rule CircleHough_ctor_I [OF region_500_wf]) (simp_all add: region_500_def)

lemma constructed:
  assumes "wf_constraints c" "is_i32 radius" "CircleHough_ctor radius c = Inr ch"
  shows "wf_detector ch" "step_size (m_cx ch) = c_step_size c"
    "lower (m_cx ch) = x_lower c" "lower (m_cy ch) = y_lower c" "m_radius ch = radius"
proof -
  show "wf_detector ch" by (rule CircleHough_ctor_wf [OF assms])
  have "ch = detector_of radius c" using CircleHough_ctor_D [OF assms] by simp
  then show "step_size (m_cx ch) = c_step_size c" "lower (m_cx ch) = x_lower c"
    "lower (m_cy ch) = y_lower c" "m_radius ch = radius"
    by (simp_all add: detector_of_def Let_def)
qed

lemma calculate_Some [simp]: "jsCircleHoughCalculate (Some ch) ps = map_hough ch ps"
  by (simp add: jsCircleHoughCalculate_def)

lemma map_hough_empty:
  "map_hough ch [] =
   Inr (\<lparr>res_weight = 0, res_x = 0, res_y = 0\<rparr>,
        ch\<lparr>m_bins := map (\<lambda>row. map (\<lambda>_. 0) row) (m_bins ch)\<rparr>)"
  by (simp add: map_hough_def)

text \<open>
  What every detector that the constructor returns has: at least one bin on each axis, the
  count \<open>(upper - lower) div step\<close>, and bin centres that increase strictly.
\<close>

lemma constructed_counts:
  assumes "wf_constraints c" "is_i32 radius" "CircleHough_ctor radius c = Inr ch"
  shows "1 \<le> steps (m_cx ch) \<and> 1 \<le> steps (m_cy ch) \<and>
         steps (m_cx ch) = (x_upper c - x_lower c) div c_step_size c \<and>
         steps (m_cy ch) = (y_upper c - y_lower c) div c_step_size c \<and>
         c_step_size c \<le> x_upper c - x_lower c \<and> c_step_size c \<le> y_upper c - y_lower c"
proof -
  note d = CircleHough_ctor_D [OF assms]
  note w = wf_detector_centres(5,6) [OF CircleHough_ctor_wf [OF assms]]
  have "ch = detector_of radius c" using d by simp
  then have "steps (m_cx ch) = (x_upper c - x_lower c) div c_step_size c"
    "steps (m_cy ch) = (y_upper c - y_lower c) div c_step_size c"
    by (simp_all add: detector_of_def Let_def)
  then show ?thesis using d w by simp
qed

lemma constructed_centres_increase:
  assumes "wf_constraints c" "is_i32 radius" "CircleHough_ctor radius c = Inr ch"
  shows "i < k \<Longrightarrow> k < length (m_bx ch) \<Longrightarrow> m_bx ch ! i < m_bx ch ! k"
    and "i < k \<Longrightarrow> k < length (m_by ch) \<Longrightarrow> m_by ch ! i < m_by ch ! k"
proof -
  note w = wf_detector_centres [OF CircleHough_ctor_wf [OF assms]]
  show "m_bx ch ! i < m_bx ch ! k" if "i < k" "k < length (m_bx ch)"
  proof -
    have "k < nat (steps (m_cx ch))" "i < nat (steps (m_cx ch))" using that w(1) by simp_all
    then show ?thesis using w(3) centres_strict [OF w(7) that(1)] by simp
  qed
  show "m_by ch ! i < m_by ch ! k" if "i < k" "k < length (m_by ch)"
  proof -
    have "k < nat (steps (m_cy ch))" "i < nat (steps (m_cy ch))" using that w(2) by simp_all
    then show ?thesis using w(4) centres_strict [OF w(8) that(1)] by simp
  qed
qed

text \<open>A call on a constructed detector returns, unless the step is \<open>2 ^ 32 - 1\<close>.\<close>

lemma constructed_detect_total:
  assumes "wf_constraints c" "is_i32 radius" "CircleHough_ctor radius c = Inr ch"
    and "c_step_size c \<noteq> 4294967295"
  shows "\<exists>res ch'. jsCircleHoughCalculate (Some ch) profile = Inr (res, ch')"
  using map_hough_total [OF constructed(1) [OF assms(1,2,3)]] constructed(2) [OF assms(1,2,3)]
    assms(4) by simp

subsection \<open>Earlier calls leave no trace\<close>

lemma zero_fill:
  assumes "length bins = n" "\<forall>row\<in>set bins. length row = m"
  shows "map (\<lambda>row. map (\<lambda>_. 0::real) row) bins = replicate n (replicate m 0)"
  using assms by (intro nth_equalityI) (simp_all add: map_replicate_const)

lemma map_hough_bins_irrelevant:
  assumes "wf_detector ch" "wf_detector (ch\<lparr>m_bins := bins\<rparr>)"
  shows "map_hough (ch\<lparr>m_bins := bins\<rparr>) ps = map_hough ch ps"
proof -
  have a: "map (\<lambda>row. map (\<lambda>_. 0::real) row) (m_bins ch) =
           replicate (nat (steps (m_cy ch))) (replicate (nat (steps (m_cx ch))) 0)"
    using assms(1) by (intro zero_fill) (simp_all add: wf_detector_def)
  have b: "map (\<lambda>row. map (\<lambda>_. 0::real) row) bins =
           replicate (nat (steps (m_cy ch))) (replicate (nat (steps (m_cx ch))) 0)"
    using assms(2) by (intro zero_fill) (simp_all add: wf_detector_def)
  have v: "vote (ch\<lparr>m_bins := bins\<rparr>) = vote ch"
    by (simp add: vote_def fun_eq_iff Let_def)
  have vp: "vote_point (ch\<lparr>m_bins := bins\<rparr>) = vote_point ch"
    by (simp add: vote_point_def fun_eq_iff v)
  show ?thesis
    by (simp add: map_hough_def Let_def a b vp)
qed

lemma map_hough_frame:
  assumes "wf_detector ch" "map_hough ch ps = Inr (res, ch')"
  shows "\<exists>bins. ch' = ch\<lparr>m_bins := bins\<rparr>"
  using map_hough_Inr(1) [OF assms] by (rule exI)

lemma run_calls_keeps:
  assumes wf: "wf_detector ch" and run: "run_calls ch ps = Inr ch'"
  shows "wf_detector ch' \<and> (\<exists>bins. ch' = ch\<lparr>m_bins := bins\<rparr>)"
proof -
  let ?P = "\<lambda>t. wf_detector t \<and> (\<exists>bins. t = ch\<lparr>m_bins := bins\<rparr>)"
  have "?P ch'"
  proof (rule for_each_invariant [where P = ?P, OF _ run [unfolded run_calls_def]])
    have "ch = ch\<lparr>m_bins := m_bins ch\<rparr>" by simp
    then show "?P ch" using wf by blast
  next
    fix t p t'
    assume t: "?P t"
      and step: "and_then (jsCircleHoughCalculate (Some t) p) (\<lambda>(r, ch''). Inr ch'') = Inr t'"
    from t have wt: "wf_detector t" by blast
    from t obtain b where b: "t = ch\<lparr>m_bins := b\<rparr>" by blast
    from step obtain r where r: "map_hough t p = Inr (r, t')"
      by (auto simp: and_then_eq_Inr)
    have "wf_detector t'" by (rule map_hough_keeps_wf [OF wt r])
    moreover obtain b' where "t' = t\<lparr>m_bins := b'\<rparr>" using map_hough_frame [OF wt r] by blast
    then have "t' = ch\<lparr>m_bins := b'\<rparr>" by (simp add: b)
    ultimately show "?P t'" by blast
  qed
  then show ?thesis .
qed

lemma run_calls_total:
  assumes wf: "wf_detector ch" and st: "step_size (m_cx ch) \<noteq> 4294967295"
  shows "\<exists>ch'. run_calls ch ps = Inr ch'"
proof -
  let ?P = "\<lambda>t. wf_detector t \<and> step_size (m_cx t) \<noteq> 4294967295"
  have "\<exists>s'. for_each (\<lambda>ch' p. and_then (jsCircleHoughCalculate (Some ch') p) (\<lambda>(r, ch''). Inr ch''))
          ps ch = Inr s' \<and> ?P s'"
  proof (rule for_each_total [where P = ?P])
    show "?P ch" using wf st by simp
  next
    fix t p
    assume t: "?P t"
    then have wt: "wf_detector t" and stt: "step_size (m_cx t) \<noteq> 4294967295" by simp_all
    obtain r t' where r: "map_hough t p = Inr (r, t')" using map_hough_total [OF wt stt] by blast
    have w': "wf_detector t'" by (rule map_hough_keeps_wf [OF wt r])
    obtain b' where "t' = t\<lparr>m_bins := b'\<rparr>" using map_hough_frame [OF wt r] by blast
    then have "m_cx t' = m_cx t" by simp
    then have "?P t'" using w' stt by simp
    moreover have "and_then (jsCircleHoughCalculate (Some t) p) (\<lambda>(r, ch''). Inr ch'') = Inr t'"
      by (simp add: r)
    ultimately show "\<exists>t'. and_then (jsCircleHoughCalculate (Some t) p) (\<lambda>(r, ch''). Inr ch'') = Inr t'
        \<and> ?P t'"
      by blast
  qed
  then show ?thesis unfolding run_calls_def by blast
qed

lemma history_independent:
  assumes wf: "wf_detector ch" and run: "run_calls ch ps = Inr ch'"
  shows "map_hough ch' profile = map_hough ch profile"
proof -
  from run_calls_keeps [OF wf run] obtain b where k: "wf_detector ch'" "ch' = ch\<lparr>m_bins := b\<rparr>"
    by blast
  have "wf_detector (ch\<lparr>m_bins := b\<rparr>)" using k by simp
  from map_hough_bins_irrelevant [OF wf this] show ?thesis by (simp add: k(2))
qed


subsection \<open>The test on the squared distance\<close>

lemma r_sqr_of_nonneg: "0 \<le> r_sqr_of ch p j i"
  by (simp add: r_sqr_of_def)








subsection \<open>The height of the kernel\<close>

lemma pdf_le_peak:
  assumes "0 < sigma"
  shows "pdf (SymTriangleDist_ctor mu sigma) v \<le> 1 / sigma"
proof (cases "\<bar>v - mu\<bar> > sigma")
  case True
  then show ?thesis using assms by (simp add: pdf_def SymTriangleDist_ctor_def)
next
  case False
  have "1 - \<bar>(v - mu) * (1 / sigma)\<bar> \<le> 1" by simp
  then have "(1 - \<bar>(v - mu) * (1 / sigma)\<bar>) * (1 / sigma) \<le> 1 * (1 / sigma)"
    using assms by (intro mult_right_mono) simp_all
  then show ?thesis using False by (simp add: pdf_def SymTriangleDist_ctor_def)
qed

lemma pdf_eq_peak:
  assumes "0 < sigma" "pdf (SymTriangleDist_ctor mu sigma) v = 1 / sigma"
  shows "v = mu"
proof (cases "\<bar>v - mu\<bar> > sigma")
  case True
  then show ?thesis using assms by (simp add: pdf_def SymTriangleDist_ctor_def)
next
  case False
  then have "(1 - \<bar>(v - mu) * (1 / sigma)\<bar>) * (1 / sigma) = 1 * (1 / sigma)"
    using assms(2) by (simp add: pdf_def SymTriangleDist_ctor_def)
  then have "1 - \<bar>(v - mu) * (1 / sigma)\<bar> = 1" using assms(1) by simp
  then have "(v - mu) * (1 / sigma) = 0" by simp
  then show ?thesis using assms(1) by simp
qed

lemma kernel_vote_le_peak:
  assumes "wf_detector ch"
  shows "kernel_vote ch ll ul p j i \<le> 1 / real_of_int (step_size (m_cx ch))"
proof -
  have st: "0 < step_size (m_cx ch)"
    and d: "m_dist ch =
       SymTriangleDist_ctor (real_of_int (m_radius ch)) (real_of_int (step_size (m_cx ch)))"
    using assms unfolding wf_detector_def wf_axis_def by blast+
  have "pdf (m_dist ch) v \<le> 1 / real_of_int (step_size (m_cx ch))" for v
    unfolding d using st by (intro pdf_le_peak) simp
  then show ?thesis using st by (simp add: kernel_vote_def)
qed

lemma kernel_vote_eq_peak:
  assumes "wf_detector ch"
    and "kernel_vote ch ll ul p j i = 1 / real_of_int (step_size (m_cx ch))"
  shows "r_sqr_of ch p j i = (real_of_int (m_radius ch))\<^sup>2"
proof -
  have st: "0 < step_size (m_cx ch)"
    and d: "m_dist ch =
       SymTriangleDist_ctor (real_of_int (m_radius ch)) (real_of_int (step_size (m_cx ch)))"
    using assms(1) unfolding wf_detector_def wf_axis_def by blast+
  have nz: "1 / real_of_int (step_size (m_cx ch)) \<noteq> 0" using st by simp
  have "pdf (m_dist ch) (sqrt (r_sqr_of ch p j i)) = 1 / real_of_int (step_size (m_cx ch))"
  proof (cases "r_sqr_of ch p j i < ll \<or> r_sqr_of ch p j i > ul")
    case True
    then have "kernel_vote ch ll ul p j i = 0" by (simp add: kernel_vote_def)
    then have "1 / real_of_int (step_size (m_cx ch)) = 0" using assms(2) by linarith
    then show ?thesis using nz by blast
  next
    case False
    then have "kernel_vote ch ll ul p j i = pdf (m_dist ch) (sqrt (r_sqr_of ch p j i))"
      by (simp add: kernel_vote_def)
    then show ?thesis using assms(2) by linarith
  qed
  then have "sqrt (r_sqr_of ch p j i) = real_of_int (m_radius ch)"
    using pdf_eq_peak [of "real_of_int (step_size (m_cx ch))" "real_of_int (m_radius ch)"
        "sqrt (r_sqr_of ch p j i)"] st unfolding d by simp
  then have "(sqrt (r_sqr_of ch p j i))\<^sup>2 = (real_of_int (m_radius ch))\<^sup>2" by simp
  then show ?thesis using r_sqr_of_nonneg [of ch p j i] by simp
qed

lemma contrib_cases:
  "contrib ch k p j i = k p j i \<or> contrib ch k p j i = 0"
  by (simp add: contrib_def split: sum.splits prod.splits)

subsection \<open>The scenarios\<close>


lemma wf_region_500:
  assumes "0 < radius" "is_i32 radius"
  shows "wf_detector (detector_of radius region_500)"
  by (rule CircleHough_ctor_wf [OF region_500_wf assms(2) ctor_region_500 [OF assms]])

lemma region_500_fields:
  "steps (m_cx (detector_of radius region_500)) = 10"
  "steps (m_cy (detector_of radius region_500)) = 10"
  "step_size (m_cx (detector_of radius region_500)) = 100"
  "m_radius (detector_of radius region_500) = radius"
  "m_dist (detector_of radius region_500) = SymTriangleDist_ctor (real_of_int radius) 100"
  "i < 10 \<Longrightarrow> m_bx (detector_of radius region_500) ! i = real_of_int (- 500 + int i * 100)"
  "j < 10 \<Longrightarrow> m_by (detector_of radius region_500) ! j = real_of_int (- 500 + int j * 100)"
  by (simp_all add: detector_of_def region_500_def)

lemma window_region_500:
  "window (detector_of radius region_500) radius 100 p =
   and_then (find_index (to_i32 (to_i32 (pt_x p - radius) - 100))
               \<lparr>lower = - 500, upper = 500, step_size = 100, steps = 10\<rparr>) (\<lambda>x_start.
   and_then (find_index (to_i32 (to_i32 (pt_x p + radius) + 100))
               \<lparr>lower = - 500, upper = 500, step_size = 100, steps = 10\<rparr>) (\<lambda>x_end.
   and_then (find_index (to_i32 (to_i32 (pt_y p - radius) - 100))
               \<lparr>lower = - 500, upper = 500, step_size = 100, steps = 10\<rparr>) (\<lambda>y_start.
   and_then (find_index (to_i32 (pt_y p + 100))
               \<lparr>lower = - 500, upper = 500, step_size = 100, steps = 10\<rparr>) (\<lambda>y_end.
     Inr (x_start, x_end, y_start, y_end)))))"
  by (simp add: window_def detector_of_def region_500_def)

lemma find_index_region:
  assumes "is_i32 coord" "is_i32 (coord + 500)"
  shows "find_index coord \<lparr>lower = - 500, upper = 500, step_size = 100, steps = 10\<rparr> =
         Inr (clamp (trunc_div (coord + 500) 100) 0 9)"
  using find_index_clamp_aux [of "\<lparr>lower = - 500, upper = 500, step_size = 100, steps = 10\<rparr>" coord]
    assms by simp




lemma sqrt_million: "sqrt 1000000 = 1000"
  using real_sqrt_abs [of 1000] by simp

lemma four_point_windows:
  "window (detector_of 1000 region_500) 1000 100 (sample 1000 0) = Inr (4, 9, 0, 6)"
  "window (detector_of 1000 region_500) 1000 100 (sample (- 1000) 0) = Inr (0, 6, 0, 6)"
  "window (detector_of 1000 region_500) 1000 100 (sample 0 1000) = Inr (0, 9, 4, 9)"
  "window (detector_of 1000 region_500) 1000 100 (sample 0 (- 1000)) = Inr (0, 9, 0, 0)"
  by (simp_all add: window_region_500 sample_def to_i32_def find_index_region is_i32_def
      trunc_div_def clamp_def)

lemma circle_centre:
  fixes X Y :: real
  assumes "(1000 - X) * (1000 - X) + (0 - Y) * (0 - Y) = 1000\<^sup>2"
    and "(- 1000 - X) * (- 1000 - X) + (0 - Y) * (0 - Y) = 1000\<^sup>2"
  shows "X = 0 \<and> Y = 0"
proof -
  have "(1000 - X) * (1000 - X) - (- 1000 - X) * (- 1000 - X) = - 4000 * X"
    by (simp add: algebra_simps)
  then have "- 4000 * X = 0" using assms by linarith
  then have X: "X = 0" by simp
  then have "Y * Y = 0" using assms(1) by simp
  then show ?thesis using X by simp
qed

lemma four_point_scenario:
  "scenario 1000 region_500 four_point_profile =
   Inr \<lparr>res_weight = 3 / 100, res_x = 0, res_y = 0\<rparr>"
proof -
  let ?ch = "detector_of 1000 region_500"
  define K where "K = kernel_vote ?ch (lim_lower ?ch) (lim_upper ?ch)"
  have r: "is_i32 1000" by (simp add: is_i32_def)
  have wf: "wf_detector ?ch" by (rule wf_region_500) (simp_all add: is_i32_def)
  note f = region_500_fields [where radius = 1000]
  have create: "jsCircleHoughCreate 1000 region_500 = Returned (Some ?ch)"
    using ctor_region_500 [of 1000] r by (simp add: jsCircleHoughCreate_def)
  have ne: "step_size (m_cx ?ch) \<noteq> 4294967295" by (simp add: f)
  obtain res ch' where run: "map_hough ?ch four_point_profile = Inr (res, ch')"
    using map_hough_total [OF wf ne, of four_point_profile] by blast
  have sc: "scenario 1000 region_500 four_point_profile = Inr res"
    by (simp add: scenario_def create run)
  have n: "nat (steps (m_cx ?ch)) = 10" "nat (steps (m_cy ?ch)) = 10" by (simp_all add: f)
  have w: "window ?ch (m_radius ?ch) (to_i32 (step_size (m_cx ?ch))) p = window ?ch 1000 100 p" for p
    by (simp add: f to_i32_def)
  have c1: "contrib ?ch K (sample 1000 0) j i =
              (if 4 \<le> int i \<and> int i < 9 \<and> 0 \<le> int j \<and> int j < 6 then K (sample 1000 0) j i else 0)"
    and c2: "contrib ?ch K (sample (- 1000) 0) j i =
              (if 0 \<le> int i \<and> int i < 6 \<and> 0 \<le> int j \<and> int j < 6 then K (sample (- 1000) 0) j i else 0)"
    and c3: "contrib ?ch K (sample 0 1000) j i =
              (if 0 \<le> int i \<and> int i < 9 \<and> 4 \<le> int j \<and> int j < 9 then K (sample 0 1000) j i else 0)"
    and c4: "contrib ?ch K (sample 0 (- 1000)) j i = 0" for j i
    by (simp_all add: contrib_def w four_point_windows)
  have lims: "lim_lower ?ch = 810000" "lim_upper ?ch = 1210000"
    by (simp_all add: lim_lower_def lim_upper_def f to_i32_def)
  have Kle: "K p j i \<le> 1 / 100" for p j i
    using kernel_vote_le_peak [OF wf, of "lim_lower ?ch" "lim_upper ?ch" p j i] by (simp add: K_def f)
  have Keq: "r_sqr_of ?ch p j i = 1000\<^sup>2" if "K p j i = 1 / 100" for p j i
    using kernel_vote_eq_peak [OF wf, of "lim_lower ?ch" "lim_upper ?ch" p j i] that
    by (simp add: K_def f)
  have cle: "contrib ?ch K p j i \<le> 1 / 100" for p j i
    using contrib_cases [of ?ch K p j i] Kle [of p j i] by auto
  have ceq: "K p j i = 1 / 100" if "contrib ?ch K p j i = 1 / 100" for p j i
    using contrib_cases [of ?ch K p j i] that by auto
  have K55: "K (sample 1000 0) 5 5 = 1 / 100" "K (sample (- 1000) 0) 5 5 = 1 / 100"
    "K (sample 0 1000) 5 5 = 1 / 100"
    by (simp_all add: K_def kernel_vote_def r_sqr_of_def f sample_def lims sqrt_million pdf_def
        SymTriangleDist_ctor_def)
  have B: "m_bins ch' ! j ! i =
           contrib ?ch K (sample 1000 0) j i + contrib ?ch K (sample (- 1000) 0) j i +
           contrib ?ch K (sample 0 1000) j i" if "j < 10" "i < 10" for j i
    using map_hough_Inr(3) [OF wf run, of j i] that
    by (simp add: n four_point_profile_def K_def [symmetric] c4)
  have B55: "m_bins ch' ! 5 ! 5 = 3 / 100"
    by (simp add: B c1 c2 c3 K55)
  note inv = map_hough_Inr(2) [OF wf run]
  have "m_bins ch' ! 5 ! 5 \<le> res_weight res"
    by (rule peak_inv_D(4) [OF inv]) (simp_all add: n)
  then have wge: "3 / 100 \<le> res_weight res" using B55 by simp
  from inv have "res = \<lparr>res_weight = 0, res_x = 0, res_y = 0\<rparr> \<or>
       0 < res_weight res \<and>
       (\<exists>i<nat (steps (m_cx ?ch)) - 1. \<exists>j<nat (steps (m_cy ?ch)) - 1.
            m_bins ch' ! j ! i = res_weight res \<and>
            res_x res = lower (m_cx ?ch) + int i * step_size (m_cx ?ch) \<and>
            res_y res = lower (m_cy ?ch) + int j * step_size (m_cy ?ch))"
    by (simp add: peak_inv_def)
  moreover have "res \<noteq> \<lparr>res_weight = 0, res_x = 0, res_y = 0\<rparr>" using wge by auto
  ultimately obtain i j where ij: "i < 10" "j < 10" "m_bins ch' ! j ! i = res_weight res"
    "res_x res = - 500 + int i * 100" "res_y res = - 500 + int j * 100"
    by (auto simp: n detector_of_def region_500_def)
  have sum: "contrib ?ch K (sample 1000 0) j i + contrib ?ch K (sample (- 1000) 0) j i +
           contrib ?ch K (sample 0 1000) j i = res_weight res"
    using B [OF ij(2,1)] ij(3) by simp
  have e: "contrib ?ch K (sample 1000 0) j i = 1 / 100"
    "contrib ?ch K (sample (- 1000) 0) j i = 1 / 100"
    "res_weight res = 3 / 100"
    using sum wge cle [of "sample 1000 0" j i] cle [of "sample (- 1000) 0" j i]
      cle [of "sample 0 1000" j i] by linarith+
  have q1: "r_sqr_of ?ch (sample 1000 0) j i = 1000\<^sup>2" by (rule Keq [OF ceq [OF e(1)]])
  have q2: "r_sqr_of ?ch (sample (- 1000) 0) j i = 1000\<^sup>2" by (rule Keq [OF ceq [OF e(2)]])
  have "real_of_int (- 500 + int i * 100) = 0 \<and> real_of_int (- 500 + int j * 100) = 0"
    by (rule circle_centre)
       (use q1 q2 ij(1,2) in \<open>simp_all add: r_sqr_of_def f sample_def\<close>)
  then have "res_x res = 0" "res_y res = 0"
    unfolding ij(4,5) by (simp_all only: of_int_eq_0_iff)
  then have "res = \<lparr>res_weight = 3 / 100, res_x = 0, res_y = 0\<rparr>"
    using e(3) by (intro jsCircleHoughResults.equality) simp_all
  then show ?thesis using sc by simp
qed


subsection \<open>The votes of the four-point profile\<close>

lemma four_point_votes:
  "contrib (detector_of 1000 region_500)
     (kernel_vote (detector_of 1000 region_500) (lim_lower (detector_of 1000 region_500))
        (lim_upper (detector_of 1000 region_500))) (sample 1000 0) 5 5 = 1 / 100"
  "contrib (detector_of 1000 region_500)
     (kernel_vote (detector_of 1000 region_500) (lim_lower (detector_of 1000 region_500))
        (lim_upper (detector_of 1000 region_500))) (sample (- 1000) 0) 5 5 = 1 / 100"
  "contrib (detector_of 1000 region_500)
     (kernel_vote (detector_of 1000 region_500) (lim_lower (detector_of 1000 region_500))
        (lim_upper (detector_of 1000 region_500))) (sample 0 1000) 5 5 = 1 / 100"
proof -
  let ?ch = "detector_of 1000 region_500"
  note f = region_500_fields [where radius = 1000]
  have w: "window ?ch (m_radius ?ch) (to_i32 (step_size (m_cx ?ch))) p = window ?ch 1000 100 p" for p
    by (simp add: f to_i32_def)
  have lims: "lim_lower ?ch = 810000" "lim_upper ?ch = 1210000"
    by (simp_all add: lim_lower_def lim_upper_def f to_i32_def)
  have K55: "kernel_vote ?ch (lim_lower ?ch) (lim_upper ?ch) (sample 1000 0) 5 5 = 1 / 100"
    "kernel_vote ?ch (lim_lower ?ch) (lim_upper ?ch) (sample (- 1000) 0) 5 5 = 1 / 100"
    "kernel_vote ?ch (lim_lower ?ch) (lim_upper ?ch) (sample 0 1000) 5 5 = 1 / 100"
    by (simp_all add: kernel_vote_def r_sqr_of_def f sample_def lims sqrt_million pdf_def
        SymTriangleDist_ctor_def)
  show "contrib ?ch (kernel_vote ?ch (lim_lower ?ch) (lim_upper ?ch)) (sample 1000 0) 5 5 = 1 / 100"
    by (simp add: contrib_def w four_point_windows K55)
  show "contrib ?ch (kernel_vote ?ch (lim_lower ?ch) (lim_upper ?ch)) (sample (- 1000) 0) 5 5 = 1 / 100"
    by (simp add: contrib_def w four_point_windows K55)
  show "contrib ?ch (kernel_vote ?ch (lim_lower ?ch) (lim_upper ?ch)) (sample 0 1000) 5 5 = 1 / 100"
    by (simp add: contrib_def w four_point_windows K55)
qed

lemma region_500_bin_55:
  assumes "\<And>p. p \<in> set ps \<Longrightarrow>
     contrib (detector_of 1000 region_500)
       (kernel_vote (detector_of 1000 region_500) (lim_lower (detector_of 1000 region_500))
          (lim_upper (detector_of 1000 region_500))) p 5 5 = 1 / 100"
  shows "\<exists>r d. map_hough (detector_of 1000 region_500) ps = Inr (r, d) \<and>
               m_bins d ! 5 ! 5 = real (length ps) / 100"
proof -
  let ?ch = "detector_of 1000 region_500"
  let ?K = "kernel_vote ?ch (lim_lower ?ch) (lim_upper ?ch)"
  have wf: "wf_detector ?ch" by (rule wf_region_500) (simp_all add: is_i32_def)
  note f = region_500_fields [where radius = 1000]
  have ne: "step_size (m_cx ?ch) \<noteq> 4294967295" by (simp add: f)
  obtain r d where run: "map_hough ?ch ps = Inr (r, d)"
    using map_hough_total [OF wf ne, of ps] by blast
  have "m_bins d ! 5 ! 5 = sum_list (map (\<lambda>p. contrib ?ch ?K p 5 5) ps)"
    by (rule map_hough_Inr(3) [OF wf run]) (simp_all add: f)
  also have "map (\<lambda>p. contrib ?ch ?K p 5 5) ps = map (\<lambda>p. 1 / 100) ps"
    using assms by (intro map_cong) simp_all
  also have "sum_list (map (\<lambda>p. 1 / 100 :: real) ps) = real (length ps) / 100"
    by (simp add: sum_list_triv)
  finally show ?thesis using run by blast
qed

lemma fourth_point_votes_nowhere:
  "vote_point (detector_of 1000 region_500) 1000 100 ll ul s (sample 0 (- 1000)) = Inr s"
  by (simp add: vote_point_window four_point_windows sweep_def to_i32_def)

lemma and_then_Inr_right: "and_then m Inr = m"
  by (cases m) simp_all

lemma four_point_is_three_point:
  "map_hough (detector_of 1000 region_500) four_point_profile =
   map_hough (detector_of 1000 region_500) [sample 1000 0, sample (- 1000) 0, sample 0 1000]"
proof -
  let ?ch = "detector_of 1000 region_500"
  note f = region_500_fields [where radius = 1000]
  have split: "four_point_profile = [sample 1000 0, sample (- 1000) 0, sample 0 1000] @ [sample 0 (- 1000)]"
    by (simp add: four_point_profile_def)
  have last: "for_each (vote_point ?ch 1000 100 ll ul) [sample 0 (- 1000)] = Inr" for ll ul
    by (simp add: fun_eq_iff fourth_point_votes_nowhere)
  have st: "to_i32 (step_size (m_cx ?ch)) = 100" "m_radius ?ch = 1000"
    by (simp_all add: f to_i32_def)
  show ?thesis
    unfolding map_hough_def Let_def st split for_each_append last and_then_Inr_right ..
qed

section \<open>The claims about the peak\<close>

text \<open>
  C2. For every constructed detector and every profile, the weight of the record that
  detect returns is the maximum of the bin array as the call leaves it (0 when all bins
  are zero). The call does return, unless the step is \<open>2 ^ 32 - 1\<close>.
\<close>

theorem detect_weight_is_max:
  assumes "wf_constraints c" "is_i32 radius" "CircleHough_ctor radius c = Inr ch"
  shows "(c_step_size c \<noteq> 4294967295 \<longrightarrow>
           (\<exists>res ch'. jsCircleHoughCalculate (Some ch) profile = Inr (res, ch'))) \<and>
         (\<forall>res ch'. jsCircleHoughCalculate (Some ch) profile = Inr (res, ch') \<longrightarrow>
            res_weight res = Max (set (concat (m_bins ch'))))"
proof -
  note k = constructed [OF assms]
  note c = wf_detector_centres [OF k(1)]
  have "\<exists>res ch'. map_hough ch profile = Inr (res, ch')" if "c_step_size c \<noteq> 4294967295"
    using map_hough_total [OF k(1)] that k(2) by simp
  moreover have "res_weight res = Max (set (concat (m_bins ch')))"
    if "map_hough ch profile = Inr (res, ch')" for res ch'
    by (rule peak_inv_Max [OF map_hough_Inr(2) [OF k(1) that] c(5,6)])
  ultimately show ?thesis by simp
qed

theorem detect_weight_is_max_witness:
  "wf_constraints region_500 \<and> is_i32 1000 \<and>
   CircleHough_ctor 1000 region_500 = Inr (detector_of 1000 region_500) \<and>
   c_step_size region_500 \<noteq> 4294967295 \<and>
   (\<exists>res ch'. jsCircleHoughCalculate (Some (detector_of 1000 region_500)) four_point_profile =
                 Inr (res, ch') \<and>
               res_weight res = Max (set (concat (m_bins ch'))))"
proof -
  have r: "is_i32 1000" by (simp add: is_i32_def)
  have ct: "CircleHough_ctor 1000 region_500 = Inr (detector_of 1000 region_500)"
    by (rule ctor_region_500) (simp_all add: is_i32_def)
  have st: "c_step_size region_500 \<noteq> 4294967295" by (simp add: region_500_def)
  from detect_weight_is_max [OF region_500_wf r ct, of four_point_profile] st
  show ?thesis using region_500_wf r ct by blast
qed

text \<open>
  C7. For every constructed detector and every detect call, either the returned weight is
  positive and the returned \<open>(x, y)\<close> is the pair of bin centres of some valid bin indices
  (the bin that holds the returned weight), or no bin holds a vote exceeding zero and the
  record is \<open>{0, 0, 0}\<close>.
\<close>

theorem detect_peak_is_bin_centre:
  assumes "wf_constraints c" "is_i32 radius" "CircleHough_ctor radius c = Inr ch"
  shows "(c_step_size c \<noteq> 4294967295 \<longrightarrow>
           (\<exists>res ch'. jsCircleHoughCalculate (Some ch) profile = Inr (res, ch'))) \<and>
         (\<forall>res ch'. jsCircleHoughCalculate (Some ch) profile = Inr (res, ch') \<longrightarrow>
            0 < res_weight res \<and>
            (\<exists>i j. i < length (m_bx ch) \<and> j < length (m_by ch) \<and>
               int i < steps (m_cx ch) \<and> int j < steps (m_cy ch) \<and>
               real_of_int (res_x res) = m_bx ch ! i \<and> real_of_int (res_y res) = m_by ch ! j \<and>
               res_x res = x_lower c + int i * c_step_size c \<and>
               res_y res = y_lower c + int j * c_step_size c \<and>
               m_bins ch' ! j ! i = res_weight res) \<or>
            res = \<lparr>res_weight = 0, res_x = 0, res_y = 0\<rparr> \<and>
            list_all (list_all (\<lambda>v. v = 0)) (m_bins ch'))"
proof -
  note k = constructed [OF assms]
  note c = wf_detector_centres [OF k(1)]
  have sy: "step_size (m_cy ch) = c_step_size c" using k(1,2) by (simp add: wf_detector_def)
  have "\<exists>res ch'. map_hough ch profile = Inr (res, ch')" if "c_step_size c \<noteq> 4294967295"
    using map_hough_total [OF k(1)] that k(2) by simp
  moreover have "0 < res_weight res \<and>
            (\<exists>i j. i < length (m_bx ch) \<and> j < length (m_by ch) \<and>
               int i < steps (m_cx ch) \<and> int j < steps (m_cy ch) \<and>
               real_of_int (res_x res) = m_bx ch ! i \<and> real_of_int (res_y res) = m_by ch ! j \<and>
               res_x res = x_lower c + int i * c_step_size c \<and>
               res_y res = y_lower c + int j * c_step_size c \<and>
               m_bins ch' ! j ! i = res_weight res) \<or>
            res = \<lparr>res_weight = 0, res_x = 0, res_y = 0\<rparr> \<and>
            list_all (list_all (\<lambda>v. v = 0)) (m_bins ch')"
    if run: "map_hough ch profile = Inr (res, ch')" for res ch'
  proof -
    note inv = map_hough_Inr(2) [OF k(1) run]
    from peak_inv_centre [OF k(1) inv] show ?thesis
    proof
      assume a: "0 < res_weight res \<and>
         (\<exists>i j. i < nat (steps (m_cx ch)) - 1 \<and> j < nat (steps (m_cy ch)) - 1 \<and>
            real_of_int (res_x res) = m_bx ch ! i \<and> real_of_int (res_y res) = m_by ch ! j \<and>
            m_bins ch' ! j ! i = res_weight res)"
      then obtain i j where ij: "i < nat (steps (m_cx ch)) - 1" "j < nat (steps (m_cy ch)) - 1"
        "real_of_int (res_x res) = m_bx ch ! i" "real_of_int (res_y res) = m_by ch ! j"
        "m_bins ch' ! j ! i = res_weight res" by blast
      have lt: "i < nat (steps (m_cx ch))" "j < nat (steps (m_cy ch))" using ij(1,2) by simp_all
      have "real_of_int (res_x res) = real_of_int (x_lower c + int i * c_step_size c)"
        using ij(3) c(3) [OF lt(1)] k(2,3) by simp
      then have x: "res_x res = x_lower c + int i * c_step_size c" by (simp only: of_int_eq_iff)
      have "real_of_int (res_y res) = real_of_int (y_lower c + int j * c_step_size c)"
        using ij(4) c(4) [OF lt(2)] k(4) sy by simp
      then have y: "res_y res = y_lower c + int j * c_step_size c" by (simp only: of_int_eq_iff)
      have "i < length (m_bx ch)" "j < length (m_by ch)" "int i < steps (m_cx ch)"
        "int j < steps (m_cy ch)" using lt c(1,2) by simp_all
      then show ?thesis using a ij(3,4,5) x y by blast
    next
      assume "res = \<lparr>res_weight = 0, res_x = 0, res_y = 0\<rparr> \<and>
              list_all (list_all (\<lambda>v. v = 0)) (m_bins ch')"
      then show ?thesis by blast
    qed
  qed
  ultimately show ?thesis by simp
qed

theorem detect_peak_is_bin_centre_witness:
  "wf_constraints region_500 \<and> is_i32 1000 \<and>
   CircleHough_ctor 1000 region_500 = Inr (detector_of 1000 region_500) \<and>
   c_step_size region_500 \<noteq> 4294967295 \<and>
   (\<exists>res ch'. jsCircleHoughCalculate (Some (detector_of 1000 region_500)) four_point_profile =
                 Inr (res, ch') \<and>
      (0 < res_weight res \<and>
       (\<exists>i j. int i < 10 \<and> int j < 10 \<and> res_x res = - 500 + int i * 100 \<and>
              res_y res = - 500 + int j * 100 \<and> m_bins ch' ! j ! i = res_weight res) \<or>
       res = \<lparr>res_weight = 0, res_x = 0, res_y = 0\<rparr> \<and>
       list_all (list_all (\<lambda>v. v = 0)) (m_bins ch')))"
proof -
  have r: "is_i32 1000" by (simp add: is_i32_def)
  have ct: "CircleHough_ctor 1000 region_500 = Inr (detector_of 1000 region_500)"
    by (rule ctor_region_500) (simp_all add: is_i32_def)
  have st: "c_step_size region_500 \<noteq> 4294967295" by (simp add: region_500_def)
  have n: "steps (m_cx (detector_of 1000 region_500)) = 10"
    "steps (m_cy (detector_of 1000 region_500)) = 10"
    "x_lower region_500 = - 500" "y_lower region_500 = - 500" "c_step_size region_500 = 100"
    by (simp_all add: detector_of_def region_500_def)
  from detect_peak_is_bin_centre [OF region_500_wf r ct, of four_point_profile] st
  obtain res ch' where run:
    "jsCircleHoughCalculate (Some (detector_of 1000 region_500)) four_point_profile = Inr (res, ch')"
    by blast
  with detect_peak_is_bin_centre [OF region_500_wf r ct, of four_point_profile]
  have "0 < res_weight res \<and>
       (\<exists>i j. int i < 10 \<and> int j < 10 \<and> res_x res = - 500 + int i * 100 \<and>
              res_y res = - 500 + int j * 100 \<and> m_bins ch' ! j ! i = res_weight res) \<or>
       res = \<lparr>res_weight = 0, res_x = 0, res_y = 0\<rparr> \<and>
       list_all (list_all (\<lambda>v. v = 0)) (m_bins ch')"
    unfolding n by blast
  then show ?thesis using region_500_wf r ct st run by blast
qed

text \<open>
  C10. For every constructed detector: the end of every voting window is at most
  \<open>count - 1\<close> on its axis, and the loops stop before it; after every detect call the last
  row and the last column of the bin array hold 0; and a result with positive weight
  reports neither the last bin centre of the x axis as its x nor the last bin centre of
  the y axis as its y.
\<close>

theorem detect_edge_bins_excluded:
  assumes "wf_constraints c" "is_i32 radius" "CircleHough_ctor radius c = Inr ch"
  shows "(\<forall>coord r. find_index coord (m_cx ch) = Inr r \<longrightarrow> r \<le> steps (m_cx ch) - 1) \<and>
         (\<forall>coord r. find_index coord (m_cy ch) = Inr r \<longrightarrow> r \<le> steps (m_cy ch) - 1) \<and>
         (c_step_size c \<noteq> 4294967295 \<longrightarrow>
           (\<exists>res ch'. jsCircleHoughCalculate (Some ch) profile = Inr (res, ch'))) \<and>
         (\<forall>res ch'. jsCircleHoughCalculate (Some ch) profile = Inr (res, ch') \<longrightarrow>
            (\<forall>i<length (m_bx ch). m_bins ch' ! (length (m_by ch) - 1) ! i = 0) \<and>
            (\<forall>j<length (m_by ch). m_bins ch' ! j ! (length (m_bx ch) - 1) = 0) \<and>
            (0 < res_weight res \<longrightarrow>
               real_of_int (res_x res) \<noteq> m_bx ch ! (length (m_bx ch) - 1) \<and>
               real_of_int (res_y res) \<noteq> m_by ch ! (length (m_by ch) - 1)))"
proof -
  note k = constructed [OF assms]
  note c = wf_detector_centres [OF k(1)]
  have ax: "wf_axis (m_cx ch)" and ay: "wf_axis (m_cy ch)"
    using k(1) by (simp_all add: wf_detector_def)
  have "r \<le> steps (m_cx ch) - 1" if "find_index coord (m_cx ch) = Inr r" for coord r
    using find_index_range [OF ax that] by simp
  moreover have "r \<le> steps (m_cy ch) - 1" if "find_index coord (m_cy ch) = Inr r" for coord r
    using find_index_range [OF ay that] by simp
  moreover have "\<exists>res ch'. map_hough ch profile = Inr (res, ch')" if "c_step_size c \<noteq> 4294967295"
    using map_hough_total [OF k(1)] that k(2) by simp
  moreover have "(\<forall>i<length (m_bx ch). m_bins ch' ! (length (m_by ch) - 1) ! i = 0) \<and>
            (\<forall>j<length (m_by ch). m_bins ch' ! j ! (length (m_bx ch) - 1) = 0) \<and>
            (0 < res_weight res \<longrightarrow>
               real_of_int (res_x res) \<noteq> m_bx ch ! (length (m_bx ch) - 1) \<and>
               real_of_int (res_y res) \<noteq> m_by ch ! (length (m_by ch) - 1))"
    if run: "map_hough ch profile = Inr (res, ch')" for res ch'
  proof -
    note inv = map_hough_Inr(2) [OF k(1) run]
    show ?thesis
      unfolding c(1,2)
      using peak_inv_edges [OF inv c(5,6)] peak_inv_not_last [OF k(1) inv] by blast
  qed
  ultimately show ?thesis by simp
qed

theorem detect_edge_bins_excluded_witness:
  "wf_constraints region_500 \<and> is_i32 1000 \<and>
   CircleHough_ctor 1000 region_500 = Inr (detector_of 1000 region_500) \<and>
   c_step_size region_500 \<noteq> 4294967295 \<and>
   (\<exists>res ch'. jsCircleHoughCalculate (Some (detector_of 1000 region_500)) four_point_profile =
                 Inr (res, ch') \<and>
      m_bins ch' ! 9 ! 3 = 0 \<and> m_bins ch' ! 3 ! 9 = 0)"
proof -
  have r: "is_i32 1000" by (simp add: is_i32_def)
  have ct: "CircleHough_ctor 1000 region_500 = Inr (detector_of 1000 region_500)"
    by (rule ctor_region_500) (simp_all add: is_i32_def)
  have st: "c_step_size region_500 \<noteq> 4294967295" by (simp add: region_500_def)
  have n: "length (m_bx (detector_of 1000 region_500)) = 10"
    "length (m_by (detector_of 1000 region_500)) = 10"
    by (simp_all add: detector_of_def region_500_def)
  note t = detect_edge_bins_excluded [OF region_500_wf r ct, of four_point_profile, unfolded n]
  from t st obtain res ch' where run:
    "jsCircleHoughCalculate (Some (detector_of 1000 region_500)) four_point_profile = Inr (res, ch')"
    by blast
  with t have "\<forall>i<10. m_bins ch' ! (10 - 1) ! i = 0" "\<forall>j<10. m_bins ch' ! j ! (10 - 1) = 0"
    by blast+
  then have "m_bins ch' ! 9 ! 3 = 0 \<and> m_bins ch' ! 3 ! 9 = 0" by simp
  then show ?thesis using region_500_wf r ct st run by blast
qed

text \<open>
  C9. For every constructed detector, a detect call after any earlier calls on the same
  detector returns what the same call returns on the fresh detector: the same result
  record and the same bins.
\<close>

theorem detect_history_independent:
  assumes "wf_constraints c" "is_i32 radius" "CircleHough_ctor radius c = Inr ch"
  shows "(c_step_size c \<noteq> 4294967295 \<longrightarrow> (\<exists>ch'. run_calls ch ps = Inr ch')) \<and>
         (\<forall>ch'. run_calls ch ps = Inr ch' \<longrightarrow>
            jsCircleHoughCalculate (Some ch') profile = jsCircleHoughCalculate (Some ch) profile)"
proof -
  note k = constructed [OF assms]
  have "\<exists>ch'. run_calls ch ps = Inr ch'" if "c_step_size c \<noteq> 4294967295"
    using run_calls_total [OF k(1)] that k(2) by simp
  moreover have "map_hough ch' profile = map_hough ch profile"
    if "run_calls ch ps = Inr ch'" for ch'
    by (rule history_independent [OF k(1) that])
  ultimately show ?thesis by simp
qed

theorem detect_history_independent_witness:
  "wf_constraints region_500 \<and> is_i32 1000 \<and>
   CircleHough_ctor 1000 region_500 = Inr (detector_of 1000 region_500) \<and>
   c_step_size region_500 \<noteq> 4294967295 \<and>
   (\<exists>ch'. run_calls (detector_of 1000 region_500) [four_point_profile, [sample 1050 0]] = Inr ch' \<and>
      jsCircleHoughCalculate (Some ch') four_point_profile =
      jsCircleHoughCalculate (Some (detector_of 1000 region_500)) four_point_profile)"
proof -
  have r: "is_i32 1000" by (simp add: is_i32_def)
  have ct: "CircleHough_ctor 1000 region_500 = Inr (detector_of 1000 region_500)"
    by (rule ctor_region_500) (simp_all add: is_i32_def)
  have st: "c_step_size region_500 \<noteq> 4294967295" by (simp add: region_500_def)
  from detect_history_independent [OF region_500_wf r ct,
      of "[four_point_profile, [sample 1050 0]]" four_point_profile] st
  show ?thesis using region_500_wf r ct by blast
qed


section \<open>The claims about construction and indexing\<close>

text \<open>
  C4. Creation is claimed to return a null handle for every invalid input. It does not:
  with radius 0 the assertion on the radius fails and the process aborts; with step 0 the
  division in the constructor of the x axis traps before any assertion runs; with an axis
  whose upper bound is not above its lower bound the assertion on that axis fails. None of
  these is a C++ exception, so none reaches the \<^verbatim>\<open>catch\<close> clause that returns the null handle.
\<close>

theorem create_invalid_never_null:
  "jsCircleHoughCreate 0 region_500 = Terminated AssertFailed \<and>
   jsCircleHoughCreate 1000 (region_500\<lparr>c_step_size := 0\<rparr>) = Terminated DivideError \<and>
   jsCircleHoughCreate 1000 (region_500\<lparr>x_upper := - 500\<rparr>) = Terminated AssertFailed \<and>
   jsCircleHoughCreate 1000 (region_500\<lparr>y_upper := - 500\<rparr>) = Terminated AssertFailed"
proof -
  have "jsCircleHoughCreate 0 region_500 = Terminated AssertFailed"
    by (rule create_zero_radius)
  moreover have "jsCircleHoughCreate 1000 (region_500\<lparr>c_step_size := 0\<rparr>) = Terminated DivideError"
    by (simp add: jsCircleHoughCreate_def CircleHough_ctor_def Constraints_ctor_zero_step)
  moreover have "jsCircleHoughCreate 1000 (region_500\<lparr>x_upper := - 500\<rparr>) = Terminated AssertFailed"
    by (simp add: jsCircleHoughCreate_def CircleHough_ctor_def region_500_def
        Constraints_ctor_def div_u32_def Let_def)
  moreover have "jsCircleHoughCreate 1000 (region_500\<lparr>y_upper := - 500\<rparr>) = Terminated AssertFailed"
    by (simp add: jsCircleHoughCreate_def CircleHough_ctor_def region_500_def
        Constraints_ctor_def div_u32_def Let_def)
  ultimately show ?thesis by simp
qed

text \<open>
  C5. The count of an axis is claimed to be at least 1 whenever \<open>upper > lower\<close> and
  \<open>step > 0\<close>. For the x axis from 0 to 50 with step 100 every assertion of the constructor
  holds and the count is 0; \<^verbatim>\<open>linrange\<close> then writes \<^verbatim>\<open>v[0]\<close> of an empty vector.
\<close>

theorem create_short_axis_count_zero:
  "Constraints_ctor 0 50 100 = Inr \<lparr>lower = 0, upper = 50, step_size = 100, steps = 0\<rparr> \<and>
   jsCircleHoughCreate 1000 (region_500\<lparr>x_lower := 0, x_upper := 50\<rparr>) = Terminated OutOfBounds"
  by (rule create_short_axis)

text \<open>
  C6. \<^verbatim>\<open>find_index\<close> is claimed to return \<open>clamp ((coord - lower) / step) 0 (count - 1)\<close>
  for every coordinate, far ones included. The code forms \<^verbatim>\<open>point - c.lower\<close> as an
  \<^verbatim>\<open>int32_t\<close>. For the sample point with y = 2147483547 and step 100 the end of the y window
  is \<^verbatim>\<open>find_index(2147483647)\<close>; on the axis from -500 to 500 the difference overflows and
  wraps to a negative number, and the index is 0, where the clamp of the quotient is 9.
\<close>

theorem find_index_far_coordinate:
  "to_i32 (pt_y (sample 0 2147483547) + 100) = 2147483647 \<and>
   find_index 2147483647 (m_cy (detector_of 1000 region_500)) = Inr 0 \<and>
   clamp (trunc_div (2147483647 - lower (m_cy (detector_of 1000 region_500)))
            (step_size (m_cy (detector_of 1000 region_500)))) 0
     (steps (m_cy (detector_of 1000 region_500)) - 1) = 9"
  using find_index_overflow_example
  by (simp add: detector_of_def region_500_def sample_def to_i32_def)

section \<open>The claim that detect cannot fail\<close>

text \<open>
  C8. Detect is claimed to have no failure mode on a constructed detector. The detector
  of radius 1 over the whole \<^verbatim>\<open>int32_t\<close> range with step \<open>2 ^ 32 - 1\<close> passes every
  assertion and has one bin. In \<^verbatim>\<open>map\<close> its step becomes the \<^verbatim>\<open>int32_t\<close> -1, and for the
  point (0, 0) \<^verbatim>\<open>find_index\<close> divides \<^verbatim>\<open>INT_MIN\<close> by -1, which the processor traps.
\<close>

theorem detect_divide_error:
  "jsCircleHoughCreate 1 full_range = Returned (Some (detector_of 1 full_range)) \<and>
   jsCircleHoughCalculate (Some (detector_of 1 full_range)) [sample 0 0] = Inl DivideError"
  using create_full_range calculate_full_range by simp

section \<open>The claims about the scenarios and the squared-distance test\<close>

text \<open>
  C1, as stated, fails. For radius 1000, step 100 and the region from -500 to 500 on both
  axes, the profile [(1000, 0), (-1000, 0), (0, 1000), (0, -1000)] does not give the weight
  4/100 at (0, 0): for the point (0, -1000) the end of the y window is
  \<^verbatim>\<open>find_index(-1000 + 100)\<close>, which is 0, so its loop over the rows is empty and it
  votes for no bin.
\<close>

theorem four_point_not_four_votes:
  "scenario 1000 region_500 four_point_profile \<noteq>
     Inr \<lparr>res_weight = 4 / 100, res_x = 0, res_y = 0\<rparr> \<and>
   find_index (to_i32 (pt_y (sample 0 (- 1000)) + 100)) (m_cy (detector_of 1000 region_500)) =
     Inr 0"
proof -
  have "find_index (to_i32 (pt_y (sample 0 (- 1000)) + 100)) (m_cy (detector_of 1000 region_500)) =
     Inr 0"
    by (simp add: detector_of_def region_500_def sample_def to_i32_def find_index_region
        is_i32_def trunc_div_def clamp_def)
  then show ?thesis using four_point_scenario by simp
qed

text \<open>
  C1, as amended. For that detector and that profile detect returns the peak at centre
  (0, 0) with weight 3/100. The bin of centre (0, 0) is bin 5 of row 5. Each of the points
  (1000, 0), (-1000, 0) and (0, 1000) adds exactly 1/100 to it: a call on any one of them
  alone leaves it at 1/100, and the calls on the first one, two and three points of the
  profile leave it at 1/100, 2/100 and 3/100. The point (0, -1000) adds nothing to any bin:
  the body of the profile loop returns every state unchanged for it, so the call on the
  whole profile returns what the call on its first three points returns, with the bin at
  3/100.
\<close>

theorem four_point_peak:
  "scenario 1000 region_500 four_point_profile =
     Inr \<lparr>res_weight = 3 / 100, res_x = 0, res_y = 0\<rparr> \<and>
   m_bx (detector_of 1000 region_500) ! 5 = 0 \<and> m_by (detector_of 1000 region_500) ! 5 = 0 \<and>
   (\<exists>r d. map_hough (detector_of 1000 region_500) [sample 1000 0] = Inr (r, d) \<and>
          m_bins d ! 5 ! 5 = 1 / 100) \<and>
   (\<exists>r d. map_hough (detector_of 1000 region_500) [sample (- 1000) 0] = Inr (r, d) \<and>
          m_bins d ! 5 ! 5 = 1 / 100) \<and>
   (\<exists>r d. map_hough (detector_of 1000 region_500) [sample 0 1000] = Inr (r, d) \<and>
          m_bins d ! 5 ! 5 = 1 / 100) \<and>
   (\<exists>r d. map_hough (detector_of 1000 region_500) [sample 1000 0, sample (- 1000) 0] = Inr (r, d) \<and>
          m_bins d ! 5 ! 5 = 2 / 100) \<and>
   (\<exists>r d. map_hough (detector_of 1000 region_500)
            [sample 1000 0, sample (- 1000) 0, sample 0 1000] = Inr (r, d) \<and>
          m_bins d ! 5 ! 5 = 3 / 100) \<and>
   (\<exists>r d. map_hough (detector_of 1000 region_500) four_point_profile = Inr (r, d) \<and>
          m_bins d ! 5 ! 5 = 3 / 100) \<and>
   map_hough (detector_of 1000 region_500) four_point_profile =
     map_hough (detector_of 1000 region_500) [sample 1000 0, sample (- 1000) 0, sample 0 1000] \<and>
   vote_point (detector_of 1000 region_500) 1000 100 ll ul s (sample 0 (- 1000)) = Inr s"
proof -
  let ?ch = "detector_of 1000 region_500"
  note f = region_500_fields [where radius = 1000]
  note v = four_point_votes
  have c: "m_bx ?ch ! 5 = 0" "m_by ?ch ! 5 = 0" by (simp_all add: f)
  have b1: "\<exists>r d. map_hough ?ch [sample 1000 0] = Inr (r, d) \<and> m_bins d ! 5 ! 5 = 1 / 100"
    using region_500_bin_55 [of "[sample 1000 0]"] v by simp
  have b2: "\<exists>r d. map_hough ?ch [sample (- 1000) 0] = Inr (r, d) \<and> m_bins d ! 5 ! 5 = 1 / 100"
    using region_500_bin_55 [of "[sample (- 1000) 0]"] v by simp
  have b3: "\<exists>r d. map_hough ?ch [sample 0 1000] = Inr (r, d) \<and> m_bins d ! 5 ! 5 = 1 / 100"
    using region_500_bin_55 [of "[sample 0 1000]"] v by simp
  have b12: "\<exists>r d. map_hough ?ch [sample 1000 0, sample (- 1000) 0] = Inr (r, d) \<and>
      m_bins d ! 5 ! 5 = 2 / 100"
    using region_500_bin_55 [of "[sample 1000 0, sample (- 1000) 0]"] v by auto
  have b123: "\<exists>r d. map_hough ?ch [sample 1000 0, sample (- 1000) 0, sample 0 1000] = Inr (r, d) \<and>
      m_bins d ! 5 ! 5 = 3 / 100"
    using region_500_bin_55 [of "[sample 1000 0, sample (- 1000) 0, sample 0 1000]"] v by auto
  have b4: "\<exists>r d. map_hough ?ch four_point_profile = Inr (r, d) \<and> m_bins d ! 5 ! 5 = 3 / 100"
    using b123 by (simp only: four_point_is_three_point)
  show ?thesis
    using four_point_scenario c b1 b2 b3 b12 b123 b4 four_point_is_three_point
      fourth_point_votes_nowhere [of ll ul s]
    by (intro conjI)
qed





end
